theory Spec2Isabelle
  imports Main "HOL-Library.AList" "HOL-Library.Multiset"
begin

section \<open>Python strings\<close>

text \<open>
  A Python \<open>str\<close> read from a header or from standard input is modelled as a
  \<open>string\<close>; one \<open>char\<close> stands for one code point below 256. \<open>str.strip()\<close> removes leading and trailing white space, \<open>str.lower()\<close>
  lower-cases every code point, \<open>str.split(c)\<close> cuts at every occurrence of the
  separator, and \<open>str.replace(a, b)\<close> (single characters) substitutes one by one.
\<close>

datatype py_error =
  IndexError | EOFError | OSError | ValueError | BinasciiError | HttpError | TransportError

definition py_isspace :: "char \<Rightarrow> bool" where
  "py_isspace c =
     (let n = (of_char c :: nat)
      in (9 \<le> n \<and> n \<le> 13) \<or> (28 \<le> n \<and> n \<le> 32) \<or> n = 133 \<or> n = 160)"

definition py_lower_char :: "char \<Rightarrow> char" where
  "py_lower_char c =
     (let n = (of_char c :: nat)
      in if (65 \<le> n \<and> n \<le> 90) \<or> (192 \<le> n \<and> n \<le> 222 \<and> n \<noteq> 215)
         then char_of (n + 32) else c)"

definition py_lower :: "string \<Rightarrow> string" where
  "py_lower s = map py_lower_char s"

definition py_strip :: "string \<Rightarrow> string" where
  "py_strip s = rev (dropWhile py_isspace (rev (dropWhile py_isspace s)))"

fun py_split :: "char \<Rightarrow> string \<Rightarrow> string list" where
  "py_split c [] = [[]]"
| "py_split c (x # xs) =
     (if x = c then [] # py_split c xs
      else (case py_split c xs of
              w # ws \<Rightarrow> (x # w) # ws
            | [] \<Rightarrow> [[x]]))"

definition py_replace :: "char \<Rightarrow> char \<Rightarrow> string \<Rightarrow> string" where
  "py_replace a b s = map (\<lambda>c. if c = a then b else c) s"

text \<open>List indexing \<open>xs[i]\<close> for \<open>i \<ge> 0\<close>: out of range raises \<open>IndexError\<close>.\<close>

definition py_index :: "'a list \<Rightarrow> nat \<Rightarrow> py_error + 'a" where
  "py_index xs i = (if i < length xs then Inr (xs ! i) else Inl IndexError)"

section \<open>Data model\<close>

text \<open>
  A decoded body text is a list of Unicode code points: \<open>unicode_of\<close> reads a literal as
  one.
\<close>

type_synonym unicode = "nat list"

definition unicode_of :: "string \<Rightarrow> unicode" where
  "unicode_of s = map of_char s"

record Email =
  id' :: string
  subject :: string
  sender :: string
  date :: string
  body_b64 :: string
  preview :: unicode

record SenderGroup =
  group_sender :: string
  group_emails :: "Email list"
  group_count :: int

datatype Decision = Skip | Delete

text \<open>
  A Python \<open>dict\<close> keeps its keys in insertion order, and both the review and the
  execute step iterate over dictionaries; a dictionary is therefore an association list
  in insertion order. \<open>d[k] = v\<close> is \<open>AList.update k v d\<close> (overwrite in place, or append),
  \<open>d.get(k)\<close> is \<open>map_of d k\<close>, \<open>d.items()\<close> is the list itself.
\<close>

type_synonym groups_dict = "(string \<times> SenderGroup) list"
type_synonym decisions_dict = "(string \<times> Decision) list"

section \<open>Group: \<open>group_by_sender\<close>\<close>

text \<open>
  \<^verbatim>\<open>
  sender_raw = email["sender"].strip()
  sender = (sender_raw.split("<")[1].split(">")[0].strip().lower()
            if "<" in sender_raw and ">" in sender_raw else sender_raw.lower())
  \<close>
\<close>

definition normalize_sender :: "string \<Rightarrow> py_error + string" where
  "normalize_sender raw =
     (let sender_raw = py_strip raw
      in if CHR ''<'' \<in> set sender_raw \<and> CHR ''>'' \<in> set sender_raw
         then (case py_index (py_split CHR ''<'' sender_raw) 1 of
                 Inl err \<Rightarrow> Inl err
               | Inr after \<Rightarrow>
                   (case py_index (py_split CHR ''>'' after) 0 of
                      Inl err \<Rightarrow> Inl err
                    | Inr addr \<Rightarrow> Inr (py_lower (py_strip addr))))
         else Inr (py_lower sender_raw))"

text \<open>
  One iteration of the loop body: create the group on first sight of the key, append the
  email, increment the count.
\<close>

definition add_email :: "string \<Rightarrow> Email \<Rightarrow> groups_dict \<Rightarrow> groups_dict" where
  "add_email s email groups =
     (let groups1 = (if s \<notin> fst ` set groups
                     then AList.update s \<lparr>group_sender = s, group_emails = [], group_count = 0\<rparr> groups
                     else groups);
          groups2 = AList.map_entry s (\<lambda>g. g\<lparr>group_emails := group_emails g @ [email]\<rparr>) groups1
      in AList.map_entry s (\<lambda>g. g\<lparr>group_count := group_count g + 1\<rparr>) groups2)"

fun group_loop :: "Email list \<Rightarrow> groups_dict \<Rightarrow> py_error + groups_dict" where
  "group_loop [] groups = Inr groups"
| "group_loop (email # rest) groups =
     (case normalize_sender (sender email) of
        Inl err \<Rightarrow> Inl err
      | Inr s \<Rightarrow> group_loop rest (add_email s email groups))"

definition group_by_sender :: "Email list \<Rightarrow> py_error + groups_dict" where
  "group_by_sender emails = group_loop emails []"

text \<open>
  The key the loop computes, in closed form: the text after the first \<open><\<close> up to the next
  \<open><\<close> or \<open>>\<close> when both characters occur in the trimmed header, the whole trimmed
  header otherwise. \<open>normalize_sender_key\<close> below proves that \<open>normalize_sender\<close>
  returns exactly this and never raises.
\<close>

definition sender_key :: "string \<Rightarrow> string" where
  "sender_key raw =
     (let t = py_strip raw
      in if CHR ''<'' \<in> set t \<and> CHR ''>'' \<in> set t
         then py_lower (py_strip (takeWhile (\<lambda>c. c \<noteq> CHR ''<'' \<and> c \<noteq> CHR ''>'')
                                   (tl (dropWhile (\<lambda>c. c \<noteq> CHR ''<'') t))))
         else py_lower t)"

text \<open>
  The normalisation as the specification words it: an angle-bracket address is present when
  a \<open><\<close> is followed, somewhere later, by a \<open>>\<close>; the address is the text between the
  first \<open><\<close> and the first \<open>>\<close> after it.
\<close>

definition has_angle_address :: "string \<Rightarrow> bool" where
  "has_angle_address t = (CHR ''>'' \<in> set (dropWhile (\<lambda>c. c \<noteq> CHR ''<'') t))"

definition angle_address :: "string \<Rightarrow> string" where
  "angle_address t = takeWhile (\<lambda>c. c \<noteq> CHR ''>'') (tl (dropWhile (\<lambda>c. c \<noteq> CHR ''<'') t))"

definition spec_normalize :: "string \<Rightarrow> string" where
  "spec_normalize raw =
     (let t = py_strip raw
      in if has_angle_address t then py_lower (py_strip (angle_address t)) else py_lower t)"

text \<open>The group of key \<open>k\<close> over a list of emails: the emails of that key, in order.\<close>

definition mk_group :: "string \<Rightarrow> Email list \<Rightarrow> SenderGroup" where
  "mk_group k es =
     \<lparr>group_sender = k,
      group_emails = filter (\<lambda>e. sender_key (sender e) = k) es,
      group_count = int (length (filter (\<lambda>e. sender_key (sender e) = k) es))\<rparr>"

section \<open>Fetch: \<open>fetch_emails\<close>\<close>

text \<open>
  The provider's answers, as far as the fetch stage reads them.
\<close>

record Header =
  header_name :: string
  header_value :: string

record Body =
  data :: "string option"

record Part =
  mimeType :: "string option"
  part_body :: "Body option"

record Payload =
  headers :: "Header list"
  parts :: "Part list option"
  payload_body :: "Body option"

record Message =
  payload :: Payload

record ListResponse =
  messages :: "string list option"

text \<open>
  The two read endpoints. Every request is logged, and an answer may depend on the
  requests made before it. A request returns, or raises: \<open>HttpError\<close> is the client's
  error for a failed request and the one the source catches; any other exception
  (\<open>TransportError\<close> stands for a timeout, a lost connection, a failed token refresh)
  is not caught by the fetch stage.
\<close>

datatype request = ListMessages int | GetMessage string

record gmail =
  list_messages :: "request list \<Rightarrow> int \<Rightarrow> py_error + ListResponse"
  get_message :: "request list \<Rightarrow> string \<Rightarrow> py_error + Message"

text \<open>
  \<^verbatim>\<open>headers = {h["name"].lower(): h["value"] for h in msg["payload"]["headers"]}\<close>
  and \<^verbatim>\<open>headers.get(key, default)\<close>.
\<close>

definition headers_dict :: "Header list \<Rightarrow> (string \<times> string) list" where
  "headers_dict hs =
     foldl (\<lambda>d h. AList.update (py_lower (header_name h)) (header_value h) d) [] hs"

definition dict_get :: "(string \<times> 'v) list \<Rightarrow> string \<Rightarrow> 'v \<Rightarrow> 'v" where
  "dict_get d k dflt = (case map_of d k of None \<Rightarrow> dflt | Some v \<Rightarrow> v)"

definition body_data :: "Body option \<Rightarrow> string option" where
  "body_data b = (case b of None \<Rightarrow> None | Some b' \<Rightarrow> data b')"

text \<open>The loop over the parts, left at the first plain-text part that has data.\<close>

fun first_text_plain :: "Part list \<Rightarrow> string" where
  "first_text_plain [] = []"
| "first_text_plain (part # rest) =
     (case body_data (part_body part) of
        Some d \<Rightarrow> if mimeType part = Some ''text/plain'' then d else first_text_plain rest
      | None \<Rightarrow> first_text_plain rest)"

definition extract_body :: "Payload \<Rightarrow> string" where
  "extract_body pl =
     (case parts pl of
        Some ps \<Rightarrow> first_text_plain ps
      | None \<Rightarrow> (case body_data (payload_body pl) of Some d \<Rightarrow> d | None \<Rightarrow> []))"

subsection \<open>The decoder of the standard library\<close>

text \<open>
  \<^verbatim>\<open>base64.urlsafe_b64decode(s)\<close> on a \<open>str\<close>, as CPython 3.11 computes it. A character
  outside ASCII raises \<open>ValueError\<close>. Then \<open>-\<close> and \<open>_\<close> are read as \<open>+\<close> and \<open>/\<close>, and
  the bytes are produced by the non-strict loop of \<open>binascii.a2b_base64\<close>: a character
  outside the alphabet is skipped; \<open>=\<close> ends the input once the current group of four
  is filled up by padding, and is skipped otherwise; at the end of the input an unfinished
  group raises \<open>binascii.Error\<close>.
\<close>

definition b64_char_value :: "char \<Rightarrow> nat option" where
  "b64_char_value c =
     (let n = (of_char c :: nat)
      in if 65 \<le> n \<and> n \<le> 90 then Some (n - 65)
         else if 97 \<le> n \<and> n \<le> 122 then Some (n - 71)
         else if 48 \<le> n \<and> n \<le> 57 then Some (n + 4)
         else if n = 43 \<or> n = 45 then Some 62
         else if n = 47 \<or> n = 95 then Some 63
         else None)"

fun a2b_loop :: "string \<Rightarrow> nat \<Rightarrow> nat \<Rightarrow> nat \<Rightarrow> nat list \<Rightarrow> py_error + nat list" where
  "a2b_loop [] quad_pos leftchar pads out =
     (if quad_pos = 0 then Inr out else Inl BinasciiError)"
| "a2b_loop (c # cs) quad_pos leftchar pads out =
     (if c = CHR ''=''
      then (if quad_pos \<ge> 2 \<and> quad_pos + (pads + 1) \<ge> 4 then Inr out
            else a2b_loop cs quad_pos leftchar (if quad_pos \<ge> 2 then pads + 1 else pads) out)
      else (case b64_char_value c of
              None \<Rightarrow> a2b_loop cs quad_pos leftchar pads out
            | Some v \<Rightarrow>
                if quad_pos = 0 then a2b_loop cs 1 v 0 out
                else if quad_pos = 1
                then a2b_loop cs 2 (v mod 16) 0 (out @ [(leftchar * 4 + v div 16) mod 256])
                else if quad_pos = 2
                then a2b_loop cs 3 (v mod 4) 0 (out @ [(leftchar * 16 + v div 4) mod 256])
                else a2b_loop cs 0 0 0 (out @ [(leftchar * 64 + v) mod 256])))"

definition urlsafe_b64decode :: "string \<Rightarrow> py_error + nat list" where
  "urlsafe_b64decode s =
     (if \<exists>c \<in> set s. (of_char c :: nat) \<ge> 128 then Inl ValueError
      else a2b_loop s 0 0 0 [])"

text \<open>
  \<^verbatim>\<open>bytes.decode("utf-8", errors="replace")\<close>: never raises; every maximal ill-formed
  part of the input becomes one U+FFFD.
\<close>

definition is_cont :: "nat \<Rightarrow> bool" where
  "is_cont b = (128 \<le> b \<and> b \<le> 191)"

fun utf8_decode :: "nat list \<Rightarrow> unicode" where
  "utf8_decode [] = []"
| "utf8_decode (b # bs) =
     (if b < 128 then b # utf8_decode bs
      else if 194 \<le> b \<and> b \<le> 223 then
        (case bs of
           [] \<Rightarrow> [65533]
         | c # r \<Rightarrow>
             if is_cont c then ((b - 192) * 64 + (c - 128)) # utf8_decode r
             else 65533 # utf8_decode (c # r))
      else if 224 \<le> b \<and> b \<le> 239 then
        (case bs of
           [] \<Rightarrow> [65533]
         | c # r \<Rightarrow>
             if (if b = 224 then 160 else 128) \<le> c \<and> c \<le> (if b = 237 then 159 else 191) then
               (case r of
                  [] \<Rightarrow> [65533]
                | d # r' \<Rightarrow>
                    if is_cont d
                    then ((b - 224) * 4096 + (c - 128) * 64 + (d - 128)) # utf8_decode r'
                    else 65533 # utf8_decode (d # r'))
             else 65533 # utf8_decode (c # r))
      else if 240 \<le> b \<and> b \<le> 244 then
        (case bs of
           [] \<Rightarrow> [65533]
         | c # r \<Rightarrow>
             if (if b = 240 then 144 else 128) \<le> c \<and> c \<le> (if b = 244 then 143 else 191) then
               (case r of
                  [] \<Rightarrow> [65533]
                | d # r' \<Rightarrow>
                    if is_cont d then
                      (case r' of
                         [] \<Rightarrow> [65533]
                       | f # r'' \<Rightarrow>
                           if is_cont f
                           then ((b - 240) * 262144 + (c - 128) * 4096 + (d - 128) * 64
                                   + (f - 128)) # utf8_decode r''
                           else 65533 # utf8_decode (f # r''))
                    else 65533 # utf8_decode (d # r'))
             else 65533 # utf8_decode (c # r))
      else 65533 # utf8_decode bs)"

text \<open>The ellipsis mark U+2026 and the sentinel preview.\<close>

definition ellipsis :: unicode where
  "ellipsis = [8230]"

definition decode_error_preview :: unicode where
  "decode_error_preview = unicode_of ''[decode error]''"

text \<open>
  \<^verbatim>\<open>
  preview = ""
  if body_b64:
      try:
          decoded = base64.urlsafe_b64decode(body_b64).decode("utf-8", errors="replace")
          preview = decoded[:140] + ellipsis if len(decoded) > 140 else decoded
      except Exception:
          preview = "[decode error]"
  \<close>
\<close>

definition make_preview :: "string \<Rightarrow> unicode" where
  "make_preview b64 =
     (if b64 = [] then []
      else (case urlsafe_b64decode b64 of
              Inl err \<Rightarrow> decode_error_preview
            | Inr bytes \<Rightarrow>
                (let decoded = utf8_decode bytes
                 in if length decoded > 140 then take 140 decoded @ ellipsis else decoded)))"

definition make_email :: "string \<Rightarrow> Message \<Rightarrow> Email" where
  "make_email mid msg =
     (let hs = headers_dict (headers (payload msg));
          b64 = extract_body (payload msg);
          pv = make_preview b64
      in \<lparr>id' = mid,
          subject = dict_get hs ''subject'' ''(no subject)'',
          sender = dict_get hs ''from'' ''Unknown'',
          date = dict_get hs ''date'' ''Unknown'',
          body_b64 = b64,
          preview = pv\<rparr>)"

text \<open>
  The loop over the listed ids. The result carries the log of requests and either the
  emails or the exception that left the loop.
\<close>

fun fetch_loop ::
  "gmail \<Rightarrow> string list \<Rightarrow> request list \<Rightarrow> Email list
     \<Rightarrow> request list \<times> (py_error + Email list)"
where
  "fetch_loop api [] log es = (log, Inr es)"
| "fetch_loop api (mid # rest) log es =
     (case get_message api log mid of
        Inl err \<Rightarrow> (log @ [GetMessage mid], Inl err)
      | Inr msg \<Rightarrow> fetch_loop api rest (log @ [GetMessage mid]) (es @ [make_email mid msg]))"

text \<open>The body of the \<open>try\<close> block, shared by the two entry points.\<close>

definition listed_ids :: "ListResponse \<Rightarrow> string list" where
  "listed_ids res = (case messages res of None \<Rightarrow> [] | Some ids \<Rightarrow> ids)"

definition fetch_try :: "gmail \<Rightarrow> int \<Rightarrow> request list \<times> (py_error + Email list)" where
  "fetch_try api n =
     (case list_messages api [] n of
        Inl err \<Rightarrow> ([ListMessages n], Inl err)
      | Inr res \<Rightarrow> fetch_loop api (listed_ids res) [ListMessages n] [])"

text \<open>
  Console entry point: \<open>except HttpError\<close> turns that exception into the empty list under
  the key \<open>emails\<close>; any other exception leaves the stage.
\<close>

definition fetch_emails :: "gmail \<Rightarrow> int \<Rightarrow> request list \<times> (py_error + Email list)" where
  "fetch_emails api n =
     (case fetch_try api n of
        (log, Inl err) \<Rightarrow> if err = HttpError then (log, Inr []) else (log, Inl err)
      | (log, Inr es) \<Rightarrow> (log, Inr es))"

text \<open>
  Web entry point: the run state is a dictionary whose keys \<open>emails\<close>, \<open>groups\<close> and
  \<open>decisions\<close> are absent until a stage stores them; on \<open>HttpError\<close> the state is
  returned as it was. \<open>state_emails\<close> is \<^verbatim>\<open>state.get("emails", [])\<close>, the way the
  group stage reads it.
\<close>

record AgentState =
  emails :: "Email list option"
  groups :: "groups_dict option"
  decisions :: "decisions_dict option"
  saved_paths :: "string list"
  trashed_ids :: "string list"
  max_fetch :: int
  run_started :: string

definition fetch_emails_app ::
  "gmail \<Rightarrow> AgentState \<Rightarrow> request list \<times> (py_error + AgentState)" where
  "fetch_emails_app api state =
     (case fetch_try api (max_fetch state) of
        (log, Inl err) \<Rightarrow> if err = HttpError then (log, Inr state) else (log, Inl err)
      | (log, Inr es) \<Rightarrow> (log, Inr (state\<lparr>emails := Some es\<rparr>)))"

definition state_emails :: "AgentState \<Rightarrow> Email list" where
  "state_emails state = (case emails state of None \<Rightarrow> [] | Some es \<Rightarrow> es)"

definition initial_state :: "int \<Rightarrow> string \<Rightarrow> AgentState" where
  "initial_state n started =
     \<lparr>emails = None, groups = None, decisions = None, saved_paths = [], trashed_ids = [],
      max_fetch = n, run_started = started\<rparr>"

text \<open>Reading the request log: the listing requests in it.\<close>

fun list_requests :: "request list \<Rightarrow> int list" where
  "list_requests [] = []"
| "list_requests (ListMessages n # rs) = n # list_requests rs"
| "list_requests (GetMessage i # rs) = list_requests rs"

text \<open>Characters of a body that the decoder reads as data.\<close>

definition is_b64_data :: "char \<Rightarrow> bool" where
  "is_b64_data c = (b64_char_value c \<noteq> None)"

section \<open>Decide: \<open>human_review\<close> and the review stage\<close>

text \<open>
  \<^verbatim>\<open>sorted(groups.items(), key=lambda x: -x[1]["count"])\<close>: Python's \<open>sorted\<close> is a
  stable sort, ascending in the key; \<open>sort_key\<close> is the stable sort of the library.
\<close>

definition review_order :: "groups_dict \<Rightarrow> groups_dict" where
  "review_order gs = sort_key (\<lambda>x. - group_count (snd x)) gs"

text \<open>
  The prompt loop of the console entry point. The lines typed on standard input during the
  run are a list; \<open>input()\<close> takes the next one and raises \<open>EOFError\<close> when none is left.
  \<^verbatim>\<open>
  while True:
      choice = input(prompt).strip().lower()
      if not choice or choice in ("skip", "keep", "k"):
          decisions[sender] = "skip"; break
      if choice in ("d", "delete", "t", "trash", "remove"):
          decisions[sender] = "delete"; break
  \<close>
\<close>

fun prompt_loop :: "string list \<Rightarrow> py_error + (Decision \<times> string list)" where
  "prompt_loop [] = Inl EOFError"
| "prompt_loop (line # rest) =
     (let choice = py_lower (py_strip line)
      in if choice = [] \<or> choice \<in> set [''skip'', ''keep'', ''k''] then Inr (Skip, rest)
         else if choice \<in> set [''d'', ''delete'', ''t'', ''trash'', ''remove'']
         then Inr (Delete, rest)
         else prompt_loop rest)"

fun review_loop ::
  "(string \<times> SenderGroup) list \<Rightarrow> string list \<Rightarrow> decisions_dict \<Rightarrow> py_error + decisions_dict"
where
  "review_loop [] inputs ds = Inr ds"
| "review_loop ((s, g) # rest) inputs ds =
     (case prompt_loop inputs of
        Inl err \<Rightarrow> Inl err
      | Inr (d, inputs') \<Rightarrow> review_loop rest inputs' (AList.update s d ds))"

definition human_review :: "groups_dict \<Rightarrow> string list \<Rightarrow> py_error + decisions_dict" where
  "human_review gs inputs = review_loop (review_order gs) inputs []"







section \<open>Execute: \<open>execute_actions\<close>\<close>

text \<open>
  The JSON document written for one email, and the two effects of the stage: writing an
  archive file, and calling the trash endpoint. A trash call is logged with the sender
  whose group the loop is working on, the message id, and the exception the call raised,
  if any.
\<close>

record Archive =
  email :: Email
  archived_at :: string
  decision :: Decision
  sender_normalized :: string

datatype event = WriteFile string Archive | TrashCall string string "py_error option"

text \<open>
  The surroundings of a run. Each answer may depend on everything that happened before:
  the clock at a write, whether opening or writing a file raises (\<open>OSError\<close>, not caught
  by the source, so the run ends there), and what a trash call raises: nothing,
  \<open>HttpError\<close>, which the source catches, or any other exception, which it does not.
\<close>

record world =
  utcnow :: "event list \<Rightarrow> string"
  write_raises :: "event list \<Rightarrow> string \<Rightarrow> bool"
  trash_raises :: "event list \<Rightarrow> string \<Rightarrow> py_error option"

record exec_state =
  trace :: "event list"
  saved :: "string list"
  trashed :: "string list"

definition safe_sender_of :: "string \<Rightarrow> string" where
  "safe_sender_of s = take 48 (py_replace CHR ''.'' CHR ''_'' (py_replace CHR ''@'' CHR ''_'' s))"

definition archive_filename :: "Email \<Rightarrow> string \<Rightarrow> string" where
  "archive_filename e safe_sender = id' e @ ''_'' @ safe_sender @ ''.json''"

text \<open>\<^verbatim>\<open>CONFIG.save_dir / filename\<close>, for a file name that is a single relative component.\<close>

definition path_join :: "string \<Rightarrow> string \<Rightarrow> string" where
  "path_join dir filename = dir @ ''/'' @ filename"

definition archive_path :: "string \<Rightarrow> string \<Rightarrow> Email \<Rightarrow> string" where
  "archive_path dir s e = path_join dir (archive_filename e (safe_sender_of s))"

text \<open>Phase 1 for one sender. The first component is the exception that ended the loop, if any.\<close>

fun save_loop ::
  "world \<Rightarrow> string \<Rightarrow> string \<Rightarrow> string \<Rightarrow> Email list \<Rightarrow> exec_state
     \<Rightarrow> py_error option \<times> exec_state"
where
  "save_loop w dir s safe_sender [] st = (None, st)"
| "save_loop w dir s safe_sender (e # rest) st =
     (let filename = archive_filename e safe_sender;
          path = path_join dir filename;
          doc = \<lparr>email = e, archived_at = utcnow w (trace st), decision = Delete,
                 sender_normalized = s\<rparr>
      in if write_raises w (trace st) path then (Some OSError, st)
         else save_loop w dir s safe_sender rest
                (st\<lparr>trace := trace st @ [WriteFile path doc], saved := saved st @ [path]\<rparr>))"

text \<open>
  Phase 2 for one sender: a call that raises \<open>HttpError\<close> is reported and the loop goes
  on; any other exception leaves the loop.
\<close>

fun trash_loop ::
  "world \<Rightarrow> string \<Rightarrow> Email list \<Rightarrow> exec_state \<Rightarrow> py_error option \<times> exec_state"
where
  "trash_loop w s [] st = (None, st)"
| "trash_loop w s (e # rest) st =
     (case trash_raises w (trace st) (id' e) of
        None \<Rightarrow>
          trash_loop w s rest
            (st\<lparr>trace := trace st @ [TrashCall s (id' e) None],
                trashed := trashed st @ [id' e]\<rparr>)
      | Some err \<Rightarrow>
          if err = HttpError
          then trash_loop w s rest (st\<lparr>trace := trace st @ [TrashCall s (id' e) (Some err)]\<rparr>)
          else (Some err, st\<lparr>trace := trace st @ [TrashCall s (id' e) (Some err)]\<rparr>))"

fun execute_loop ::
  "world \<Rightarrow> string \<Rightarrow> groups_dict \<Rightarrow> decisions_dict \<Rightarrow> exec_state
     \<Rightarrow> py_error option \<times> exec_state"
where
  "execute_loop w dir gs [] st = (None, st)"
| "execute_loop w dir gs ((s, d) # rest) st =
     (if d \<noteq> Delete then execute_loop w dir gs rest st
      else (case map_of gs s of
              None \<Rightarrow> execute_loop w dir gs rest st
            | Some g \<Rightarrow>
                (case save_loop w dir s (safe_sender_of s) (group_emails g) st of
                   (Some err, st1) \<Rightarrow> (Some err, st1)
                 | (None, st1) \<Rightarrow>
                     (case trash_loop w s (group_emails g) st1 of
                        (Some err, st2) \<Rightarrow> (Some err, st2)
                      | (None, st2) \<Rightarrow> execute_loop w dir gs rest st2))))"

definition execute_actions ::
  "world \<Rightarrow> string \<Rightarrow> groups_dict \<Rightarrow> decisions_dict \<Rightarrow> py_error option \<times> exec_state"
where
  "execute_actions w dir gs ds = execute_loop w dir gs ds \<lparr>trace = [], saved = [], trashed = []\<rparr>"

text \<open>
  Reading a log. \<open>saved_for s evs\<close> lists the emails archived for sender \<open>s\<close>;
  \<open>file_at evs p\<close> is the content of the file at path \<open>p\<close> after the writes of
  \<open>evs\<close>, a later write to a path replacing an earlier one; \<open>trash_calls\<close> lists the ids the trash endpoint was
  called with, \<open>trash_ok\<close> those whose call succeeded.
\<close>

fun saved_for :: "string \<Rightarrow> event list \<Rightarrow> Email list" where
  "saved_for s [] = []"
| "saved_for s (WriteFile p a # evs) =
     (if sender_normalized a = s then email a # saved_for s evs else saved_for s evs)"
| "saved_for s (TrashCall s' i r # evs) = saved_for s evs"

fun file_at :: "event list \<Rightarrow> string \<Rightarrow> Archive option" where
  "file_at [] p = None"
| "file_at (WriteFile q a # evs) p =
     (case file_at evs p of
        Some later \<Rightarrow> Some later
      | None \<Rightarrow> if q = p then Some a else None)"
| "file_at (TrashCall s i r # evs) p = file_at evs p"

fun written_paths :: "event list \<Rightarrow> string list" where
  "written_paths [] = []"
| "written_paths (WriteFile p a # evs) = p # written_paths evs"
| "written_paths (TrashCall s i r # evs) = written_paths evs"

fun trash_calls :: "event list \<Rightarrow> string list" where
  "trash_calls [] = []"
| "trash_calls (WriteFile p a # evs) = trash_calls evs"
| "trash_calls (TrashCall s i r # evs) = i # trash_calls evs"

fun trash_ok :: "event list \<Rightarrow> string list" where
  "trash_ok [] = []"
| "trash_ok (WriteFile p a # evs) = trash_ok evs"
| "trash_ok (TrashCall s i r # evs) = (if r = None then i # trash_ok evs else trash_ok evs)"

fun event_sender :: "event \<Rightarrow> string" where
  "event_sender (WriteFile p a) = sender_normalized a"
| "event_sender (TrashCall s i r) = s"

text \<open>The groups the execute step acts on: marked delete and present in the groups.\<close>

fun targets :: "groups_dict \<Rightarrow> decisions_dict \<Rightarrow> (string \<times> SenderGroup) list" where
  "targets gs [] = []"
| "targets gs ((s, d) # rest) =
     (if d = Delete
      then (case map_of gs s of None \<Rightarrow> targets gs rest | Some g \<Rightarrow> (s, g) # targets gs rest)
      else targets gs rest)"



text \<open>
  The shape of the events of one sender's block: the write of the archive of email \<open>e\<close>
  (at any time stamp) and the trash call for it, when it succeeds or raises \<open>HttpError\<close>.
\<close>

definition archive_write :: "string \<Rightarrow> string \<Rightarrow> Email \<Rightarrow> event \<Rightarrow> bool" where
  "archive_write dir s e ev =
     (case ev of
        WriteFile p a \<Rightarrow>
          p = archive_path dir s e \<and> email a = e \<and> decision a = Delete \<and> sender_normalized a = s
      | TrashCall s' i r \<Rightarrow> False)"

definition trash_event :: "string \<Rightarrow> Email \<Rightarrow> event \<Rightarrow> bool" where
  "trash_event s e ev =
     (case ev of
        WriteFile p a \<Rightarrow> False
      | TrashCall s' i r \<Rightarrow> s' = s \<and> i = id' e \<and> (r = None \<or> r = Some HttpError))"

text \<open>
  The log of a run over the groups it acts on: for each in turn the writes of all its
  emails and then the trash calls for all of them, unless a write raises, which ends the
  log inside the writes of that group, or a trash call raises another exception than
  \<open>HttpError\<close>, which ends the log with that call.
\<close>

inductive run_shape ::
  "string \<Rightarrow> (string \<times> SenderGroup) list \<Rightarrow> py_error option \<Rightarrow> event list \<Rightarrow> bool"
where
  finished: "run_shape dir [] None []"
| aborted: "n < length (group_emails g) \<Longrightarrow>
            list_all2 (archive_write dir s) (take n (group_emails g)) ws \<Longrightarrow>
            run_shape dir ((s, g) # tg) (Some OSError) ws"
| trash_aborted: "list_all2 (archive_write dir s) (group_emails g) ws \<Longrightarrow>
                  n < length (group_emails g) \<Longrightarrow>
                  list_all2 (trash_event s) (take n (group_emails g)) ts \<Longrightarrow>
                  err \<noteq> HttpError \<Longrightarrow>
                  run_shape dir ((s, g) # tg) (Some err)
                    (ws @ ts @ [TrashCall s (id' (group_emails g ! n)) (Some err)])"
| block: "list_all2 (archive_write dir s) (group_emails g) ws \<Longrightarrow>
          list_all2 (trash_event s) (group_emails g) ts \<Longrightarrow>
          run_shape dir tg out rest \<Longrightarrow>
          run_shape dir ((s, g) # tg) out (ws @ ts @ rest)"



text \<open>A trash call that raised another exception than \<open>HttpError\<close>.\<close>

fun uncaught_failure :: "event \<Rightarrow> bool" where
  "uncaught_failure (WriteFile p a) = False"
| "uncaught_failure (TrashCall s i r) = (r \<noteq> None \<and> r \<noteq> Some HttpError)"

section \<open>A sample run\<close>

text \<open>
  Three fetched messages, two from \<open>a@x.com\<close> (once with a display name, once in upper
  case) and one from \<open>b@y.com\<close>, and the groups they fall into.
\<close>

definition ex_emails :: "Email list" where
  "ex_emails =
    [\<lparr>id' = ''m1'', subject = ''Hi'', sender = ''Ann <a@x.com>'', date = ''d1'', body_b64 = '''', preview = []\<rparr>,
     \<lparr>id' = ''m2'', subject = ''Ho'', sender = ''b@y.com'', date = ''d2'', body_b64 = '''', preview = []\<rparr>,
     \<lparr>id' = ''m3'', subject = ''Re'', sender = ''A@X.com '', date = ''d3'', body_b64 = '''', preview = []\<rparr>]"

definition ex_groups :: groups_dict where
  "ex_groups =
    [(''a@x.com'', \<lparr>group_sender = ''a@x.com'',
                    group_emails = [ex_emails ! 0, ex_emails ! 2], group_count = 2\<rparr>),
     (''b@y.com'', \<lparr>group_sender = ''b@y.com'',
                    group_emails = [ex_emails ! 1], group_count = 1\<rparr>)]"

text \<open>
  A provider whose listing call raises \<open>HttpError\<close>, one whose listing call times out,
  and one that lists two messages: \<open>m1\<close> with the body \<open>abc\<close>, an unfinished group on
  which the decoder raises, and \<open>m2\<close> with the body \<open>%%%\<close>, which holds no character
  of the alphabet.
\<close>

definition ex_api_down :: gmail where
  "ex_api_down = \<lparr>list_messages = (\<lambda>log n. Inl HttpError),
                  get_message = (\<lambda>log i. Inl HttpError)\<rparr>"

definition ex_api_timeout :: gmail where
  "ex_api_timeout = \<lparr>list_messages = (\<lambda>log n. Inl TransportError),
                     get_message = (\<lambda>log i. Inl TransportError)\<rparr>"

definition ex_message :: "string \<Rightarrow> Message" where
  "ex_message b =
     \<lparr>payload = \<lparr>headers = [\<lparr>header_name = ''From'', header_value = ''Ann <a@x.com>''\<rparr>],
                 parts = None,
                 payload_body = Some \<lparr>data = Some b\<rparr>\<rparr>\<rparr>"

definition ex_api_bad :: gmail where
  "ex_api_bad =
     \<lparr>list_messages = (\<lambda>log n. Inr \<lparr>messages = Some [''m1'', ''m2'']\<rparr>),
      get_message = (\<lambda>log i. Inr (ex_message (if i = ''m1'' then ''abc'' else ''%%%'')))\<rparr>"

text \<open>The emails the fetch stage returns for the last of them.\<close>

definition ex_fetched :: "Email list" where
  "ex_fetched =
    [\<lparr>id' = ''m1'', subject = ''(no subject)'', sender = ''Ann <a@x.com>'', date = ''Unknown'',
      body_b64 = ''abc'', preview = decode_error_preview\<rparr>,
     \<lparr>id' = ''m2'', subject = ''(no subject)'', sender = ''Ann <a@x.com>'', date = ''Unknown'',
      body_b64 = ''%%%'', preview = []\<rparr>]"

text \<open>
  Surroundings in which every write succeeds and the trash call for message \<open>m1\<close> raises
  \<open>HttpError\<close>;
  the decisions delete \<open>a@x.com\<close> and keep \<open>b@y.com\<close>; the log and the final state
  of that run.
\<close>

definition ex_world :: world where
  "ex_world = \<lparr>utcnow = (\<lambda>evs. ''2024-01-01T00:00:00''),
               write_raises = (\<lambda>evs p. False),
               trash_raises = (\<lambda>evs i. if i = ''m1'' then Some HttpError else None)\<rparr>"

definition ex_decisions :: decisions_dict where
  "ex_decisions = [(''a@x.com'', Delete), (''b@y.com'', Skip)]"

definition ex_archive :: "Email \<Rightarrow> Archive" where
  "ex_archive e = \<lparr>email = e, archived_at = ''2024-01-01T00:00:00'', decision = Delete,
                   sender_normalized = ''a@x.com''\<rparr>"

definition ex_pre :: "event list" where
  "ex_pre = [WriteFile ''saved_emails/m1_a_x_com.json'' (ex_archive (ex_emails ! 0)),
             WriteFile ''saved_emails/m3_a_x_com.json'' (ex_archive (ex_emails ! 2))]"

definition ex_trace :: "event list" where
  "ex_trace = ex_pre @ [TrashCall ''a@x.com'' ''m1'' (Some HttpError),
                        TrashCall ''a@x.com'' ''m3'' None]"

definition ex_final :: exec_state where
  "ex_final = \<lparr>trace = ex_trace,
               saved = [''saved_emails/m1_a_x_com.json'', ''saved_emails/m3_a_x_com.json''],
               trashed = [''m3'']\<rparr>"

text \<open>
  The same surroundings, except that the trash call for \<open>m1\<close> times out.
\<close>

definition ex_world_timeout :: world where
  "ex_world_timeout =
     \<lparr>utcnow = (\<lambda>evs. ''2024-01-01T00:00:00''),
      write_raises = (\<lambda>evs p. False),
      trash_raises = (\<lambda>evs i. if i = ''m1'' then Some TransportError else None)\<rparr>"




section \<open>Verification: normalisation\<close>

lemma py_split_unfold:
  "py_split c s = takeWhile (\<lambda>x. x \<noteq> c) s #
     (case dropWhile (\<lambda>x. x \<noteq> c) s of [] \<Rightarrow> [] | _ # r \<Rightarrow> py_split c r)"
  by (induction s) (auto split: list.splits)

lemma py_index_split_0:
  "py_index (py_split c s) 0 = Inr (takeWhile (\<lambda>x. x \<noteq> c) s)"
  by (subst py_split_unfold) (simp add: py_index_def)

lemma py_index_split_1:
  assumes "c \<in> set s"
  shows "py_index (py_split c s) (Suc 0) = Inr (takeWhile (\<lambda>x. x \<noteq> c) (tl (dropWhile (\<lambda>x. x \<noteq> c) s)))"
proof -
  from assms have "dropWhile (\<lambda>x. x \<noteq> c) s \<noteq> []" by auto
  then obtain r where r: "dropWhile (\<lambda>x. x \<noteq> c) s = c # r"
    using hd_dropWhile [of "\<lambda>x. x \<noteq> c" s] by (cases "dropWhile (\<lambda>x. x \<noteq> c) s") auto
  have "py_split c s = takeWhile (\<lambda>x. x \<noteq> c) s # py_split c r"
    by (subst py_split_unfold) (simp add: r)
  moreover have "py_split c r = takeWhile (\<lambda>x. x \<noteq> c) r # (case dropWhile (\<lambda>x. x \<noteq> c) r of [] \<Rightarrow> [] | _ # r \<Rightarrow> py_split c r)"
    by (rule py_split_unfold)
  ultimately show ?thesis by (simp add: py_index_def r)
qed

lemma takeWhile_takeWhile:
  "takeWhile P (takeWhile Q xs) = takeWhile (\<lambda>x. Q x \<and> P x) xs"
  by (induction xs) auto

lemma normalize_sender_key: "normalize_sender raw = Inr (sender_key raw)"
  by (simp add: normalize_sender_def sender_key_def Let_def py_index_split_1 py_index_split_0
      takeWhile_takeWhile)

lemma has_angle_address_both:
  "has_angle_address t \<Longrightarrow> CHR ''<'' \<in> set t \<and> CHR ''>'' \<in> set t"
proof
  assume h: "has_angle_address t"
  then show "CHR ''>'' \<in> set t"
    unfolding has_angle_address_def by (rule set_dropWhileD)
  show "CHR ''<'' \<in> set t"
  proof (rule ccontr)
    assume "CHR ''<'' \<notin> set t"
    then have "dropWhile (\<lambda>c. c \<noteq> CHR ''<'') t = []" by auto
    with h show False by (simp add: has_angle_address_def)
  qed
qed

lemma takeWhile_and_absent:
  "\<forall>x \<in> set (takeWhile P xs). Q x \<Longrightarrow> takeWhile (\<lambda>x. Q x \<and> P x) xs = takeWhile P xs"
  by (induction xs) auto

text \<open>
  C3, as amended. When the trimmed header lacks \<open><\<close> or \<open>>\<close> the key is the trimmed,
  lower-cased header. When it has both, the key is the lower-cased, trimmed text that
  follows the first \<open><\<close> and stops at the next \<open><\<close> or \<open>>\<close>. That text is the
  substring between the angle brackets, and the key is the one the specification gives,
  whenever the first \<open><\<close> is followed by a \<open>>\<close> with no further \<open><\<close> in between.
\<close>

theorem normalize_sender_split:
  "(CHR ''<'' \<notin> set (py_strip raw) \<or> CHR ''>'' \<notin> set (py_strip raw)
      \<longrightarrow> normalize_sender raw = Inr (py_lower (py_strip raw)))
   \<and> (CHR ''<'' \<in> set (py_strip raw) \<and> CHR ''>'' \<in> set (py_strip raw)
      \<longrightarrow> normalize_sender raw =
            Inr (py_lower (py_strip (takeWhile (\<lambda>c. c \<noteq> CHR ''<'' \<and> c \<noteq> CHR ''>'')
                                       (tl (dropWhile (\<lambda>c. c \<noteq> CHR ''<'') (py_strip raw)))))))
   \<and> (has_angle_address (py_strip raw) \<and> CHR ''<'' \<notin> set (angle_address (py_strip raw))
      \<longrightarrow> normalize_sender raw = Inr (py_lower (py_strip (angle_address (py_strip raw))))
          \<and> normalize_sender raw = Inr (spec_normalize raw))"
proof (intro conjI impI)
  assume "CHR ''<'' \<notin> set (py_strip raw) \<or> CHR ''>'' \<notin> set (py_strip raw)"
  then show "normalize_sender raw = Inr (py_lower (py_strip raw))"
    by (auto simp: normalize_sender_key sender_key_def)
next
  assume "CHR ''<'' \<in> set (py_strip raw) \<and> CHR ''>'' \<in> set (py_strip raw)"
  then show "normalize_sender raw =
            Inr (py_lower (py_strip (takeWhile (\<lambda>c. c \<noteq> CHR ''<'' \<and> c \<noteq> CHR ''>'')
                                       (tl (dropWhile (\<lambda>c. c \<noteq> CHR ''<'') (py_strip raw))))))"
    by (simp add: normalize_sender_key sender_key_def)
next
  assume a: "has_angle_address (py_strip raw) \<and> CHR ''<'' \<notin> set (angle_address (py_strip raw))"
  then have both: "CHR ''<'' \<in> set (py_strip raw) \<and> CHR ''>'' \<in> set (py_strip raw)"
    using has_angle_address_both by blast
  have "takeWhile (\<lambda>c. c \<noteq> CHR ''<'' \<and> c \<noteq> CHR ''>'') (tl (dropWhile (\<lambda>c. c \<noteq> CHR ''<'') (py_strip raw)))
        = angle_address (py_strip raw)"
    unfolding angle_address_def
    by (rule takeWhile_and_absent) (use a in \<open>auto simp: angle_address_def\<close>)
  with both show k: "normalize_sender raw = Inr (py_lower (py_strip (angle_address (py_strip raw))))"
    by (simp add: normalize_sender_key sender_key_def)
  from a show "normalize_sender raw = Inr (spec_normalize raw)"
    unfolding k by (simp add: spec_normalize_def)
qed

theorem normalize_sender_split_witness:
  "has_angle_address (py_strip ''  Bob Smith <Bob@X.com>  '')
   \<and> CHR ''<'' \<notin> set (angle_address (py_strip ''  Bob Smith <Bob@X.com>  ''))
   \<and> CHR ''<'' \<in> set (py_strip ''  Bob Smith <Bob@X.com>  '')
   \<and> CHR ''>'' \<in> set (py_strip ''  Bob Smith <Bob@X.com>  '')
   \<and> normalize_sender ''  Bob Smith <Bob@X.com>  '' = Inr ''bob@x.com''
   \<and> spec_normalize ''  Bob Smith <Bob@X.com>  '' = ''bob@x.com''
   \<and> CHR ''<'' \<notin> set (py_strip '' News@Y.org '')
   \<and> normalize_sender '' News@Y.org '' = Inr ''news@y.org''"
  using normalize_sender_split [of "''  Bob Smith <Bob@X.com>  ''"]
    normalize_sender_split [of "'' News@Y.org ''"]
  by (simp add: has_angle_address_def angle_address_def spec_normalize_def py_strip_def py_isspace_def
      py_lower_def py_lower_char_def char_of_eq_iff)

text \<open>
  C3 as stated fails: \<open>x> <y\<close> holds both characters but no \<open><\<close> followed by a \<open>>\<close>,
  so no angle-bracket address is present and the specification asks for the whole trimmed
  string; the code splits all the same and returns \<open>y\<close>.
\<close>

theorem normalize_sender_counterexample:
  "\<not> has_angle_address (py_strip ''x> <y'')
   \<and> spec_normalize ''x> <y'' = ''x> <y''
   \<and> py_lower (py_strip ''x> <y'') = ''x> <y''
   \<and> normalize_sender ''x> <y'' = Inr ''y''
   \<and> normalize_sender ''x> <y'' \<noteq> Inr (spec_normalize ''x> <y'')"
  by (simp add: has_angle_address_def spec_normalize_def normalize_sender_def py_strip_def
      py_isspace_def py_index_def py_lower_def py_lower_char_def)

section \<open>Verification: grouping\<close>

lemma map_entry_tabulate:
  "distinct ks \<Longrightarrow>
   AList.map_entry s f (map (\<lambda>k. (k, h k)) ks) = map (\<lambda>k. (k, if k = s then f (h k) else h k)) ks"
  by (induction ks) auto

lemma update_tabulate_new:
  "s \<notin> set ks \<Longrightarrow>
   AList.update s v (map (\<lambda>k. (k, h k)) ks) = map (\<lambda>k. (k, if k = s then v else h k)) (ks @ [s])"
  by (induction ks) auto

lemma add_email_tabulate:
  assumes d: "distinct ks" and ks: "set ks = (\<lambda>e. sender_key (sender e)) ` set es"
    and s: "s = sender_key (sender e)"
  shows "add_email s e (map (\<lambda>k. (k, mk_group k es)) ks)
         = map (\<lambda>k. (k, mk_group k (es @ [e]))) (if s \<in> set ks then ks else ks @ [s])"
proof (cases "s \<in> set ks")
  case True
  then have "add_email s e (map (\<lambda>k. (k, mk_group k es)) ks)
      = AList.map_entry s (\<lambda>g. g\<lparr>group_count := group_count g + 1\<rparr>)
          (AList.map_entry s (\<lambda>g. g\<lparr>group_emails := group_emails g @ [e]\<rparr>)
             (map (\<lambda>k. (k, mk_group k es)) ks))"
    by (simp add: add_email_def image_image)
  also have "\<dots> = map (\<lambda>k. (k, mk_group k (es @ [e]))) ks"
    using d s by (simp add: map_entry_tabulate mk_group_def)
  finally show ?thesis using True by simp
next
  case False
  then have none: "filter (\<lambda>e. sender_key (sender e) = s) es = []"
    using ks by (auto simp: filter_empty_conv)
  have d': "distinct (ks @ [s])" using d False by simp
  from False have "add_email s e (map (\<lambda>k. (k, mk_group k es)) ks)
      = AList.map_entry s (\<lambda>g. g\<lparr>group_count := group_count g + 1\<rparr>)
          (AList.map_entry s (\<lambda>g. g\<lparr>group_emails := group_emails g @ [e]\<rparr>)
             (AList.update s \<lparr>group_sender = s, group_emails = [], group_count = 0\<rparr>
                (map (\<lambda>k. (k, mk_group k es)) ks)))"
    by (simp add: add_email_def image_image)
  also have "\<dots> = map (\<lambda>k. (k, mk_group k (es @ [e]))) (ks @ [s])"
    unfolding update_tabulate_new [OF False] map_entry_tabulate [OF d']
    using s none False by (auto simp: mk_group_def)
  finally show ?thesis using False by simp
qed

lemma group_loop_tabulate:
  "distinct ks \<Longrightarrow> set ks = (\<lambda>e. sender_key (sender e)) ` set es \<Longrightarrow>
   \<exists>ks'. distinct ks' \<and> set ks' = (\<lambda>e. sender_key (sender e)) ` set (es @ rest)
     \<and> group_loop rest (map (\<lambda>k. (k, mk_group k es)) ks)
         = Inr (map (\<lambda>k. (k, mk_group k (es @ rest))) ks')"
proof (induction rest arbitrary: ks es)
  case Nil
  then show ?case by auto
next
  case (Cons e rest)
  let ?s = "sender_key (sender e)"
  let ?ks = "if ?s \<in> set ks then ks else ks @ [?s]"
  have d: "distinct ?ks" using Cons.prems by simp
  have k: "set ?ks = (\<lambda>e. sender_key (sender e)) ` set (es @ [e])"
    using Cons.prems by auto
  from Cons.IH [OF d k] obtain ks' where
    "distinct ks'" "set ks' = (\<lambda>e. sender_key (sender e)) ` set ((es @ [e]) @ rest)"
    "group_loop rest (map (\<lambda>k. (k, mk_group k (es @ [e]))) ?ks)
       = Inr (map (\<lambda>k. (k, mk_group k ((es @ [e]) @ rest))) ks')"
    by blast
  then show ?case
    using add_email_tabulate [OF Cons.prems(1) Cons.prems(2) refl, of e]
    by (intro exI [of _ ks']) (simp add: normalize_sender_key)
qed

lemma group_by_sender_tabulate:
  "\<exists>ks. distinct ks \<and> set ks = (\<lambda>e. sender_key (sender e)) ` set es
     \<and> group_by_sender es = Inr (map (\<lambda>k. (k, mk_group k es)) ks)"
  using group_loop_tabulate [of "[]" "[]" es] by (simp add: group_by_sender_def)

lemma sum_list_single_class:
  "distinct ks \<Longrightarrow>
   (\<Sum>k\<leftarrow>ks. (if x = k then {#e#} else {#})) = (if x \<in> set ks then {#e#} else {#})"
  by (induction ks) auto

lemma mset_classes:
  "distinct ks \<Longrightarrow> f ` set es \<subseteq> set ks \<Longrightarrow>
   (\<Sum>k\<leftarrow>ks. mset (filter (\<lambda>e. f e = k) es)) = mset es"
proof (induction es)
  case Nil
  then show ?case by (induction ks) auto
next
  case (Cons e es)
  have one: "(\<Sum>k\<leftarrow>ks. (if f e = k then {#e#} else {#})) = {#e#}"
    using Cons.prems by (simp add: sum_list_single_class)
  have "(\<Sum>k\<leftarrow>ks. mset (filter (\<lambda>x. f x = k) (e # es)))
      = (\<Sum>k\<leftarrow>ks. (if f e = k then {#e#} else {#}) + mset (filter (\<lambda>x. f x = k) es))"
    by (intro arg_cong [where f = sum_list] map_cong) auto
  also have "\<dots> = (\<Sum>k\<leftarrow>ks. (if f e = k then {#e#} else {#})) + (\<Sum>k\<leftarrow>ks. mset (filter (\<lambda>x. f x = k) es))"
    by (simp add: sum_list_addf)
  finally show ?case using one Cons by simp
qed


lemma size_sum_list_mset:
  "size (\<Sum>k\<leftarrow>ks. (g k :: 'b multiset)) = (\<Sum>k\<leftarrow>ks. size (g k))"
  by (induction ks) auto

lemma sum_list_length_classes:
  assumes "distinct ks" "f ` set es \<subseteq> set ks"
  shows "(\<Sum>k\<leftarrow>ks. int (length (filter (\<lambda>e. f e = k) es))) = int (length es)"
proof -
  have "length es = size (\<Sum>k\<leftarrow>ks. mset (filter (\<lambda>e. f e = k) es))"
    by (simp only: mset_classes [OF assms] size_mset)
  also have "\<dots> = (\<Sum>k\<leftarrow>ks. length (filter (\<lambda>e. f e = k) es))"
    by (simp only: size_sum_list_mset size_mset)
  finally have "int (length es) = int (\<Sum>k\<leftarrow>ks. length (filter (\<lambda>e. f e = k) es))"
    by simp
  also have "\<dots> = (\<Sum>k\<leftarrow>ks. int (length (filter (\<lambda>e. f e = k) es)))"
    by (simp only: sum_list_of_nat [symmetric] map_map comp_def)
  finally show ?thesis by simp
qed

text \<open>
  C2. Grouping never raises and partitions the fetched emails: the keys are distinct, the
  counts add up to the number of fetched emails, every fetched email lies in exactly one
  group, every count is the length of its group's sequence, and the groups together hold
  the fetched emails with their multiplicities.
\<close>

theorem group_by_sender_partition:
  "\<exists>gs. group_by_sender es = Inr gs
     \<and> distinct (map fst gs)
     \<and> (\<Sum>p\<leftarrow>gs. group_count (snd p)) = int (length es)
     \<and> (\<forall>e \<in> set es. \<exists>!p. p \<in> set gs \<and> e \<in> set (group_emails (snd p)))
     \<and> (\<forall>p \<in> set gs. group_count (snd p) = int (length (group_emails (snd p))))
     \<and> mset (concat (map (\<lambda>p. group_emails (snd p)) gs)) = mset es"
proof -
  let ?key = "\<lambda>e. sender_key (sender e)"
  from group_by_sender_tabulate [of es] obtain ks where
    d: "distinct ks" and ks: "set ks = ?key ` set es"
    and g: "group_by_sender es = Inr (map (\<lambda>k. (k, mk_group k es)) ks)"
    by blast
  let ?gs = "map (\<lambda>k. (k, mk_group k es)) ks"
  have sub: "?key ` set es \<subseteq> set ks" using ks by simp
  have keys: "map fst ?gs = ks" by (simp add: comp_def)
  have cnt: "(\<Sum>p\<leftarrow>?gs. group_count (snd p)) = int (length es)"
    using sum_list_length_classes [OF d sub] by (simp add: comp_def mk_group_def)
  have uniq: "\<forall>e \<in> set es. \<exists>!p. p \<in> set ?gs \<and> e \<in> set (group_emails (snd p))"
  proof
    fix e assume e: "e \<in> set es"
    then have "?key e \<in> set ks" using ks by auto
    with e have "(?key e, mk_group (?key e) es) \<in> set ?gs
        \<and> e \<in> set (group_emails (snd (?key e, mk_group (?key e) es)))"
      by (auto simp: mk_group_def)
    moreover have "\<And>p. p \<in> set ?gs \<and> e \<in> set (group_emails (snd p))
        \<Longrightarrow> p = (?key e, mk_group (?key e) es)"
      by (auto simp: mk_group_def)
    ultimately show "\<exists>!p. p \<in> set ?gs \<and> e \<in> set (group_emails (snd p))"
      by blast
  qed
  have len: "\<forall>p \<in> set ?gs. group_count (snd p) = int (length (group_emails (snd p)))"
    by (auto simp: mk_group_def)
  have ms: "mset (concat (map (\<lambda>p. group_emails (snd p)) ?gs)) = mset es"
    using mset_classes [OF d sub] by (simp add: mset_concat comp_def mk_group_def)
  show ?thesis
    using g keys d cnt uniq len ms by (intro exI [of _ ?gs]) (simp only: simp_thms)
qed

theorem group_by_sender_partition_witness:
  "group_by_sender ex_emails = Inr ex_groups
   \<and> (\<Sum>p\<leftarrow>ex_groups. group_count (snd p)) = int (length ex_emails)
   \<and> distinct (map fst ex_groups)
   \<and> mset (concat (map (\<lambda>p. group_emails (snd p)) ex_groups)) = mset ex_emails"
proof -
  have v: "group_by_sender ex_emails = Inr ex_groups"
    by code_simp
  from group_by_sender_partition [of ex_emails] obtain gs where
    g: "group_by_sender ex_emails = Inr gs"
    and rest: "distinct (map fst gs)"
      "(\<Sum>p\<leftarrow>gs. group_count (snd p)) = int (length ex_emails)"
      "mset (concat (map (\<lambda>p. group_emails (snd p)) gs)) = mset ex_emails"
    by blast
  from g v have "gs = ex_groups" by simp
  with v rest show ?thesis by simp
qed

section \<open>Verification: fetch\<close>

lemma make_email_fields:
  "id' (make_email i m) = i"
  "preview (make_email i m) = make_preview (body_b64 (make_email i m))"
  by (simp_all add: make_email_def Let_def)

lemma fetch_loop_requests:
  "fetch_loop api ids log es = (log', r) \<Longrightarrow> list_requests log' = list_requests log"
proof (induction ids arbitrary: log es)
  case Nil
  then show ?case by simp
next
  case (Cons i ids)
  have a: "list_requests (log @ [GetMessage i]) = list_requests log"
    by (induction log rule: list_requests.induct) simp_all
  show ?case
  proof (cases "get_message api log i")
    case (Inl err)
    with Cons.prems a show ?thesis by auto
  next
    case (Inr msg)
    with Cons.prems have "fetch_loop api ids (log @ [GetMessage i]) (es @ [make_email i msg])
        = (log', r)" by simp
    from Cons.IH [OF this] a show ?thesis by simp
  qed
qed

lemma fetch_loop_emails:
  "fetch_loop api ids log es = (log', Inr es') \<Longrightarrow>
   \<exists>ms. length ms = length ids \<and> es' = es @ map2 make_email ids ms"
proof (induction ids arbitrary: log es)
  case Nil
  then show ?case by simp
next
  case (Cons i ids)
  show ?case
  proof (cases "get_message api log i")
    case (Inl err)
    with Cons.prems show ?thesis by simp
  next
    case (Inr msg)
    with Cons.prems have "fetch_loop api ids (log @ [GetMessage i]) (es @ [make_email i msg])
        = (log', Inr es')" by simp
    from Cons.IH [OF this] obtain ms where
      ms: "length ms = length ids" "es' = (es @ [make_email i msg]) @ map2 make_email ids ms"
      by blast
    then have "length (msg # ms) = length (i # ids)
        \<and> es' = es @ map2 make_email (i # ids) (msg # ms)" by simp
    then show ?thesis by blast
  qed
qed

lemma fetch_loop_total:
  "\<forall>log. \<forall>i \<in> set ids. \<exists>m. get_message api log i = Inr m \<Longrightarrow>
   \<exists>log' es'. fetch_loop api ids log es = (log', Inr es')"
proof (induction ids arbitrary: log es)
  case Nil
  show ?case by simp
next
  case (Cons i ids)
  from Cons.prems obtain m where m: "get_message api log i = Inr m" by auto
  from Cons.prems have "\<forall>log. \<forall>i \<in> set ids. \<exists>m. get_message api log i = Inr m" by simp
  from Cons.IH [OF this, of "log @ [GetMessage i]" "es @ [make_email i m]"] m
  show ?case by simp
qed

lemma map2_make_email_ids:
  "length ms = length ids \<Longrightarrow> map id' (map2 make_email ids ms) = ids"
  by (induction ids ms rule: list_induct2') (simp_all add: make_email_fields)

lemma map2_make_email_member:
  "e \<in> set (map2 make_email ids ms) \<Longrightarrow> \<exists>i m. e = make_email i m"
  by (auto simp: set_zip)

lemma fetch_try_requests:
  "fetch_try api n = (log, r) \<Longrightarrow> list_requests log = [n]"
proof (cases "list_messages api [] n")
  case (Inl err)
  assume "fetch_try api n = (log, r)"
  with Inl show ?thesis by (auto simp: fetch_try_def)
next
  case (Inr res)
  assume "fetch_try api n = (log, r)"
  with Inr have "fetch_loop api (listed_ids res) [ListMessages n] [] = (log, r)"
    by (simp add: fetch_try_def)
  from fetch_loop_requests [OF this] show ?thesis by simp
qed

lemma fetch_try_emails:
  assumes "fetch_try api n = (log, Inr es)"
  shows "\<exists>res. list_messages api [] n = Inr res \<and> map id' es = listed_ids res"
proof (cases "list_messages api [] n")
  case (Inl err)
  with assms show ?thesis by (simp add: fetch_try_def)
next
  case (Inr res)
  with assms have "fetch_loop api (listed_ids res) [ListMessages n] [] = (log, Inr es)"
    by (simp add: fetch_try_def)
  from fetch_loop_emails [OF this] obtain ms where
    "length ms = length (listed_ids res)" "es = map2 make_email (listed_ids res) ms" by auto
  then have "map id' es = listed_ids res" using map2_make_email_ids by blast
  with Inr show ?thesis by simp
qed

text \<open>
  C6, as amended. When the listing call raises \<open>HttpError\<close>, the console fetch stage
  returns the empty list of emails and the web fetch stage returns the state it was
  given, which for the state the run is entered with holds no emails; the log holds the
  one listing request and nothing else. When the listing call raises any other exception,
  that exception leaves the stage, again after the one request. In every run, however it
  ends, the listing endpoint is asked exactly once; and whenever the stage returns a
  non-empty list, the listing call had succeeded and the list holds one email for every
  listed id, in order: no partial list is returned.
\<close>

theorem fetch_list_failure_empty:
  "(list_messages api [] n = Inl HttpError \<longrightarrow>
        fetch_emails api n = ([ListMessages n], Inr [])
      \<and> fetch_emails_app api (initial_state n started)
          = ([ListMessages n], Inr (initial_state n started))
      \<and> state_emails (initial_state n started) = [])
   \<and> (\<forall>err. list_messages api [] n = Inl err \<and> err \<noteq> HttpError \<longrightarrow>
        fetch_emails api n = ([ListMessages n], Inl err)
      \<and> fetch_emails_app api (initial_state n started) = ([ListMessages n], Inl err))
   \<and> (\<forall>log r. fetch_emails api n = (log, r) \<longrightarrow> list_requests log = [n])
   \<and> (\<forall>log r. fetch_emails_app api (initial_state n started) = (log, r)
         \<longrightarrow> list_requests log = [n])
   \<and> (\<forall>log es. fetch_emails api n = (log, Inr es) \<and> es \<noteq> [] \<longrightarrow>
         (\<exists>res. list_messages api [] n = Inr res \<and> map id' es = listed_ids res))"
proof -
  have mf: "max_fetch (initial_state n started) = n" by (simp add: initial_state_def)
  have caught: "list_messages api [] n = Inl HttpError \<longrightarrow>
        fetch_emails api n = ([ListMessages n], Inr [])
      \<and> fetch_emails_app api (initial_state n started)
          = ([ListMessages n], Inr (initial_state n started))
      \<and> state_emails (initial_state n started) = []"
    by (simp add: fetch_emails_def fetch_emails_app_def fetch_try_def mf)
       (simp add: initial_state_def state_emails_def)
  have other: "\<forall>err. list_messages api [] n = Inl err \<and> err \<noteq> HttpError \<longrightarrow>
        fetch_emails api n = ([ListMessages n], Inl err)
      \<and> fetch_emails_app api (initial_state n started) = ([ListMessages n], Inl err)"
    by (simp add: fetch_emails_def fetch_emails_app_def fetch_try_def mf)
  have once: "\<forall>log r. fetch_emails api n = (log, r) \<longrightarrow> list_requests log = [n]"
  proof (intro allI impI)
    fix log r assume a: "fetch_emails api n = (log, r)"
    obtain log0 r0 where t: "fetch_try api n = (log0, r0)" by (cases "fetch_try api n")
    with a have "log = log0"
      by (cases r0) (auto simp: fetch_emails_def split: if_splits)
    with fetch_try_requests [OF t] show "list_requests log = [n]" by simp
  qed
  have once_app: "\<forall>log r. fetch_emails_app api (initial_state n started) = (log, r)
         \<longrightarrow> list_requests log = [n]"
  proof (intro allI impI)
    fix log r assume a: "fetch_emails_app api (initial_state n started) = (log, r)"
    obtain log0 r0 where t: "fetch_try api n = (log0, r0)" by (cases "fetch_try api n")
    with a have "log = log0"
      by (cases r0) (auto simp: fetch_emails_app_def mf split: if_splits)
    with fetch_try_requests [OF t] show "list_requests log = [n]" by simp
  qed
  have whole: "\<forall>log es. fetch_emails api n = (log, Inr es) \<and> es \<noteq> [] \<longrightarrow>
         (\<exists>res. list_messages api [] n = Inr res \<and> map id' es = listed_ids res)"
  proof (intro allI impI)
    fix log es assume a: "fetch_emails api n = (log, Inr es) \<and> es \<noteq> []"
    obtain log0 r0 where t: "fetch_try api n = (log0, r0)" by (cases "fetch_try api n")
    with a have "fetch_try api n = (log, Inr es)"
      by (cases r0) (auto simp: fetch_emails_def split: if_splits)
    from fetch_try_emails [OF this]
    show "\<exists>res. list_messages api [] n = Inr res \<and> map id' es = listed_ids res" .
  qed
  from caught other once once_app whole show ?thesis by (intro conjI)
qed

theorem fetch_list_failure_empty_witness:
  "list_messages ex_api_down [] 10 = Inl HttpError
   \<and> fetch_emails ex_api_down 10 = ([ListMessages 10], Inr [])
   \<and> fetch_emails_app ex_api_down (initial_state 10 ''t0'')
       = ([ListMessages 10], Inr (initial_state 10 ''t0''))
   \<and> state_emails (initial_state 10 ''t0'') = []
   \<and> list_requests (fst (fetch_emails ex_api_down 10)) = [10]"
proof -
  have h: "list_messages ex_api_down [] 10 = Inl HttpError" by (simp add: ex_api_down_def)
  note t = fetch_list_failure_empty [of ex_api_down 10 "''t0''"]
  from t h have a: "fetch_emails ex_api_down 10 = ([ListMessages 10], Inr [])
      \<and> fetch_emails_app ex_api_down (initial_state 10 ''t0'')
          = ([ListMessages 10], Inr (initial_state 10 ''t0''))
      \<and> state_emails (initial_state 10 ''t0'') = []" by blast
  then have "list_requests (fst (fetch_emails ex_api_down 10)) = [10]" by simp
  with h a show ?thesis by blast
qed

text \<open>
  C6 as stated fails for a failure that is not an \<open>HttpError\<close>: when the listing call
  times out, the fetch stage yields no result set, empty or not; the exception leaves it.
\<close>

theorem fetch_list_failure_counterexample:
  "list_messages ex_api_timeout [] 10 = Inl TransportError
   \<and> fetch_emails ex_api_timeout 10 = ([ListMessages 10], Inl TransportError)
   \<and> snd (fetch_emails ex_api_timeout 10) \<noteq> Inr []
   \<and> fetch_emails_app ex_api_timeout (initial_state 10 ''t0'')
       = ([ListMessages 10], Inl TransportError)"
  by (simp add: ex_api_timeout_def fetch_emails_def fetch_emails_app_def fetch_try_def
      initial_state_def)

text \<open>
  The decoder on a body without \<open>=\<close>: it raises exactly when the body has a character
  outside ASCII or the number of its characters from the alphabet is not a multiple of
  four. Characters outside the alphabet are skipped, not refused.
\<close>

lemma a2b_loop_no_pad:
  "CHR ''='' \<notin> set s \<Longrightarrow> q < 4 \<Longrightarrow>
   ((q + length (filter is_b64_data s)) mod 4 = 0
      \<longrightarrow> (\<exists>bytes. a2b_loop s q l p out = Inr bytes))
   \<and> ((q + length (filter is_b64_data s)) mod 4 \<noteq> 0
      \<longrightarrow> a2b_loop s q l p out = Inl BinasciiError)"
proof (induction s arbitrary: q l p out)
  case Nil
  then show ?case by simp
next
  case (Cons c s)
  from Cons.prems have ne: "c \<noteq> CHR ''=''" and s: "CHR ''='' \<notin> set s" by auto
  show ?case
  proof (cases "b64_char_value c")
    case None
    then have "\<not> is_b64_data c" by (simp add: is_b64_data_def)
    with None ne Cons.IH [OF s Cons.prems(2), of l p out] show ?thesis by simp
  next
    case (Some v)
    then have d: "is_b64_data c" by (simp add: is_b64_data_def)
    from Cons.prems(2) consider "q = 0" | "q = 1" | "q = 2" | "q = 3" by linarith
    then show ?thesis
    proof cases
      case 1
      with Some ne d Cons.IH [OF s, of 1 v 0 out] show ?thesis by simp
    next
      case 2
      with Some ne d
        Cons.IH [OF s, of 2 "v mod 16" 0 "out @ [(l * 4 + v div 16) mod 256]"]
      show ?thesis by simp
    next
      case 3
      with Some ne d
        Cons.IH [OF s, of 3 "v mod 4" 0 "out @ [(l * 16 + v div 4) mod 256]"]
      show ?thesis by simp
    next
      case 4
      have m: "(3 + Suc n) mod 4 = n mod 4" for n :: nat by presburger
      from 4 Some ne d Cons.IH [OF s, of 0 0 0 "out @ [(l * 64 + v) mod 256]"]
      show ?thesis by (simp add: m)
    qed
  qed
qed

lemma urlsafe_b64decode_no_pad:
  assumes "CHR ''='' \<notin> set s"
  shows "(\<exists>err. urlsafe_b64decode s = Inl err)
     \<longleftrightarrow> ((\<exists>c \<in> set s. (of_char c :: nat) \<ge> 128)
          \<or> length (filter is_b64_data s) mod 4 \<noteq> 0)"
proof (cases "\<exists>c \<in> set s. (of_char c :: nat) \<ge> 128")
  case True
  then show ?thesis by (simp add: urlsafe_b64decode_def)
next
  case False
  then have u: "urlsafe_b64decode s = a2b_loop s 0 0 0 []" by (simp add: urlsafe_b64decode_def)
  show ?thesis
  proof (cases "length (filter is_b64_data s) mod 4 = 0")
    case True
    with a2b_loop_no_pad [OF assms, of 0 0 0 "[]"] obtain bytes where
      "a2b_loop s 0 0 0 [] = Inr bytes" by auto
    with u True False show ?thesis by simp
  next
    case m: False
    with a2b_loop_no_pad [OF assms, of 0 0 0 "[]"] have
      "a2b_loop s 0 0 0 [] = Inl BinasciiError" by auto
    with u m show ?thesis by simp
  qed
qed

lemma make_preview_cases:
  "(b \<noteq> [] \<and> (\<exists>err. urlsafe_b64decode b = Inl err) \<longrightarrow> make_preview b = decode_error_preview)
   \<and> (\<forall>bytes. urlsafe_b64decode b = Inr bytes \<longrightarrow>
         make_preview b = (if length (utf8_decode bytes) > 140
                           then take 140 (utf8_decode bytes) @ ellipsis
                           else utf8_decode bytes))"
proof (cases "b = []")
  case True
  then show ?thesis by (simp add: make_preview_def urlsafe_b64decode_def)
next
  case False
  then show ?thesis by (auto simp: make_preview_def Let_def)
qed

text \<open>
  C7, as amended. When the listing and the message requests succeed, the fetch stage
  returns, with one email per listed id, in order, whatever the bodies are: decoding never
  raises out of the stage. An email whose non-empty body makes the decoder raise carries
  the sentinel preview \<open>[decode error]\<close>; an email on whose body the decoder returns
  carries the decoded text, cut to 140 characters and the ellipsis mark when it is
  longer. The decoder raises on a body without \<open>=\<close> exactly when the body has a character
  outside ASCII or its number of alphabet characters is not a multiple of four: other
  malformed bodies are decoded, their characters outside the alphabet skipped.
\<close>

theorem decode_failure_sentinel:
  assumes ls: "list_messages api [] n = Inr res"
    and gt: "\<forall>log. \<forall>i \<in> set (listed_ids res). \<exists>m. get_message api log i = Inr m"
  shows "\<exists>log es. fetch_emails api n = (log, Inr es)
      \<and> fetch_emails_app api (initial_state n started)
          = (log, Inr ((initial_state n started)\<lparr>emails := Some es\<rparr>))
      \<and> map id' es = listed_ids res
      \<and> (\<forall>e \<in> set es.
            (body_b64 e \<noteq> [] \<and> (\<exists>err. urlsafe_b64decode (body_b64 e) = Inl err)
               \<longrightarrow> preview e = decode_error_preview)
          \<and> (\<forall>bytes. urlsafe_b64decode (body_b64 e) = Inr bytes \<longrightarrow>
               preview e = (if length (utf8_decode bytes) > 140
                            then take 140 (utf8_decode bytes) @ ellipsis
                            else utf8_decode bytes))
          \<and> (CHR ''='' \<notin> set (body_b64 e) \<longrightarrow>
               ((\<exists>err. urlsafe_b64decode (body_b64 e) = Inl err)
                \<longleftrightarrow> ((\<exists>c \<in> set (body_b64 e). (of_char c :: nat) \<ge> 128)
                     \<or> length (filter is_b64_data (body_b64 e)) mod 4 \<noteq> 0))))"
proof -
  from fetch_loop_total [OF gt, of "[ListMessages n]" "[]"] obtain log es where
    fl: "fetch_loop api (listed_ids res) [ListMessages n] [] = (log, Inr es)" by blast
  with ls have ft: "fetch_try api n = (log, Inr es)" by (simp add: fetch_try_def)
  then have fe: "fetch_emails api n = (log, Inr es)" by (simp add: fetch_emails_def)
  have fa: "fetch_emails_app api (initial_state n started)
          = (log, Inr ((initial_state n started)\<lparr>emails := Some es\<rparr>))"
    using ft by (simp add: fetch_emails_app_def initial_state_def)
  from fetch_loop_emails [OF fl] obtain ms where
    ms: "length ms = length (listed_ids res)" "es = map2 make_email (listed_ids res) ms"
    by auto
  then have ids: "map id' es = listed_ids res" using map2_make_email_ids by blast
  have pv: "\<forall>e \<in> set es.
            (body_b64 e \<noteq> [] \<and> (\<exists>err. urlsafe_b64decode (body_b64 e) = Inl err)
               \<longrightarrow> preview e = decode_error_preview)
          \<and> (\<forall>bytes. urlsafe_b64decode (body_b64 e) = Inr bytes \<longrightarrow>
               preview e = (if length (utf8_decode bytes) > 140
                            then take 140 (utf8_decode bytes) @ ellipsis
                            else utf8_decode bytes))
          \<and> (CHR ''='' \<notin> set (body_b64 e) \<longrightarrow>
               ((\<exists>err. urlsafe_b64decode (body_b64 e) = Inl err)
                \<longleftrightarrow> ((\<exists>c \<in> set (body_b64 e). (of_char c :: nat) \<ge> 128)
                     \<or> length (filter is_b64_data (body_b64 e)) mod 4 \<noteq> 0)))"
  proof
    fix e assume "e \<in> set es"
    with ms(2) obtain i m where e: "e = make_email i m"
      using map2_make_email_member by blast
    have p: "preview e = make_preview (body_b64 e)" unfolding e by (rule make_email_fields(2))
    show "(body_b64 e \<noteq> [] \<and> (\<exists>err. urlsafe_b64decode (body_b64 e) = Inl err)
               \<longrightarrow> preview e = decode_error_preview)
          \<and> (\<forall>bytes. urlsafe_b64decode (body_b64 e) = Inr bytes \<longrightarrow>
               preview e = (if length (utf8_decode bytes) > 140
                            then take 140 (utf8_decode bytes) @ ellipsis
                            else utf8_decode bytes))
          \<and> (CHR ''='' \<notin> set (body_b64 e) \<longrightarrow>
               ((\<exists>err. urlsafe_b64decode (body_b64 e) = Inl err)
                \<longleftrightarrow> ((\<exists>c \<in> set (body_b64 e). (of_char c :: nat) \<ge> 128)
                     \<or> length (filter is_b64_data (body_b64 e)) mod 4 \<noteq> 0)))"
      unfolding p using make_preview_cases [of "body_b64 e"] urlsafe_b64decode_no_pad
      by blast
  qed
  from fe fa ids pv show ?thesis by blast
qed

lemma ex_fetch:
  "fetch_emails ex_api_bad 10
     = ([ListMessages 10, GetMessage ''m1'', GetMessage ''m2''], Inr ex_fetched)"
  by (simp add: fetch_emails_def fetch_try_def listed_ids_def ex_api_bad_def ex_message_def
      ex_fetched_def make_email_def extract_body_def body_data_def headers_dict_def
      dict_get_def make_preview_def urlsafe_b64decode_def b64_char_value_def Let_def
      py_lower_def py_lower_char_def char_of_eq_iff eq_commute [of "CHR ''f''"])

theorem decode_failure_sentinel_witness:
  "list_messages ex_api_bad [] 10 = Inr \<lparr>messages = Some [''m1'', ''m2'']\<rparr>
   \<and> fst (fetch_emails ex_api_bad 10) = [ListMessages 10, GetMessage ''m1'', GetMessage ''m2'']
   \<and> snd (fetch_emails ex_api_bad 10) = Inr ex_fetched
   \<and> map id' ex_fetched = [''m1'', ''m2'']
   \<and> body_b64 (ex_fetched ! 0) = ''abc''
   \<and> urlsafe_b64decode ''abc'' = Inl BinasciiError
   \<and> preview (ex_fetched ! 0) = decode_error_preview"
proof -
  have l: "list_messages ex_api_bad [] 10 = Inr \<lparr>messages = Some [''m1'', ''m2'']\<rparr>"
    by (simp add: ex_api_bad_def)
  have g: "\<forall>log. \<forall>i \<in> set (listed_ids \<lparr>messages = Some [''m1'', ''m2'']\<rparr>).
              \<exists>m. get_message ex_api_bad log i = Inr m"
    by (simp add: ex_api_bad_def)
  have d: "urlsafe_b64decode ''abc'' = Inl BinasciiError"
    by (simp add: urlsafe_b64decode_def b64_char_value_def)
  have b: "body_b64 (ex_fetched ! 0) = ''abc''" "ex_fetched ! 0 \<in> set ex_fetched"
    by (simp_all add: ex_fetched_def)
  from decode_failure_sentinel [OF l g, of "''t0''"] obtain log es where
    t: "fetch_emails ex_api_bad 10 = (log, Inr es)"
       "map id' es = listed_ids \<lparr>messages = Some [''m1'', ''m2'']\<rparr>"
       "\<forall>e \<in> set es. body_b64 e \<noteq> [] \<and> (\<exists>err. urlsafe_b64decode (body_b64 e) = Inl err)
               \<longrightarrow> preview e = decode_error_preview"
    by blast
  from t(1) ex_fetch have es: "es = ex_fetched"
    and log: "log = [ListMessages 10, GetMessage ''m1'', GetMessage ''m2'']" by simp_all
  from t(2) have ids: "map id' ex_fetched = [''m1'', ''m2'']"
    unfolding es by (simp add: listed_ids_def)
  from t(3) b d have "preview (ex_fetched ! 0) = decode_error_preview"
    unfolding es by auto
  with l t(1) es log ids b(1) d show ?thesis by simp
qed

text \<open>
  C7 as stated fails for a malformed body on which the decoder does not raise. The body
  \<open>%%%\<close> of message \<open>m2\<close> holds no character of the alphabet; the decoder skips all three
  and returns no bytes, so the preview is the empty string, not the sentinel. In the same
  way the three characters after the padding of \<open>SGk=%%%\<close> are never read, and the
  preview is \<open>Hi\<close>.
\<close>

theorem decode_failure_counterexample:
  "snd (fetch_emails ex_api_bad 10) = Inr ex_fetched
   \<and> id' (ex_fetched ! 1) = ''m2''
   \<and> body_b64 (ex_fetched ! 1) = ''%%%''
   \<and> \<not> is_b64_data CHR ''%''
   \<and> urlsafe_b64decode ''%%%'' = Inr []
   \<and> preview (ex_fetched ! 1) = []
   \<and> preview (ex_fetched ! 1) \<noteq> decode_error_preview
   \<and> make_preview ''SGk=%%%'' = unicode_of ''Hi''
   \<and> make_preview ''SGk=%%%'' \<noteq> decode_error_preview"
proof -
  have a: "snd (fetch_emails ex_api_bad 10) = Inr ex_fetched" by (simp add: ex_fetch)
  have b: "id' (ex_fetched ! 1) = ''m2''" "body_b64 (ex_fetched ! 1) = ''%%%''"
    "preview (ex_fetched ! 1) = []" "preview (ex_fetched ! 1) \<noteq> decode_error_preview"
    by (simp_all add: ex_fetched_def decode_error_preview_def unicode_of_def)
  have c: "\<not> is_b64_data CHR ''%''" by (simp add: is_b64_data_def b64_char_value_def)
  have d: "urlsafe_b64decode ''%%%'' = Inr []"
    by (simp add: urlsafe_b64decode_def b64_char_value_def)
  have e: "make_preview ''SGk=%%%'' = unicode_of ''Hi''"
    by (simp add: make_preview_def urlsafe_b64decode_def b64_char_value_def unicode_of_def
        Let_def)
  have f: "make_preview ''SGk=%%%'' \<noteq> decode_error_preview"
    unfolding e by (simp add: decode_error_preview_def unicode_of_def)
  from a b c d e f show ?thesis by (intro conjI)
qed

section \<open>Verification: decide\<close>






lemma review_loop_keys:
  "review_loop xs inputs ds = Inr ds' \<Longrightarrow> distinct (map fst xs) \<Longrightarrow>
   set (map fst xs) \<inter> set (map fst ds) = {} \<Longrightarrow> map fst ds' = map fst ds @ map fst xs"
proof (induction xs inputs ds rule: review_loop.induct)
  case (1 inputs ds)
  then show ?case by simp
next
  case (2 s g rest inputs ds)
  from "2.prems"(1) obtain d inputs' where p: "prompt_loop inputs = Inr (d, inputs')"
    and r: "review_loop rest inputs' (AList.update s d ds) = Inr ds'"
    by (auto split: sum.splits)
  have k: "map fst (AList.update s d ds) = map fst ds @ [s]"
    using "2.prems"(3) by (simp add: AList.update_keys)
  have "map fst ds' = map fst (AList.update s d ds) @ map fst rest"
    using "2.IH" [OF p refl r] "2.prems"(2,3) k by auto
  then show ?case using k by simp
qed

text \<open>
  C9. The order in which the groups are presented is descending in the message count, keeps
  groups of equal count in the order of the dictionary, and is a rearrangement of all the
  groups; a console review that completes has asked for every group, in that order.
\<close>

theorem review_order_sorted_stable:
  "sorted_wrt (\<lambda>a b. a \<ge> b) (map (\<lambda>x. group_count (snd x)) (review_order gs))
   \<and> (\<forall>c. filter (\<lambda>x. group_count (snd x) = c) (review_order gs)
           = filter (\<lambda>x. group_count (snd x) = c) gs)
   \<and> mset (review_order gs) = mset gs
   \<and> (\<forall>inputs ds. distinct (map fst gs) \<and> human_review gs inputs = Inr ds
         \<longrightarrow> map fst ds = map fst (review_order gs))"
proof (intro conjI allI impI)
  have "sorted (map (\<lambda>x. - group_count (snd x)) (review_order gs))"
    by (simp add: review_order_def)
  then show "sorted_wrt (\<lambda>a b. a \<ge> b) (map (\<lambda>x. group_count (snd x)) (review_order gs))"
    by (simp add: sorted_wrt_map sorted_map)
next
  fix c
  have "filter (\<lambda>x. - group_count (snd x) = - c) (review_order gs)
        = filter (\<lambda>x. - group_count (snd x) = - c) gs"
    unfolding review_order_def by (rule sort_key_stable)
  then show "filter (\<lambda>x. group_count (snd x) = c) (review_order gs)
           = filter (\<lambda>x. group_count (snd x) = c) gs" by simp
next
  show "mset (review_order gs) = mset gs" by (simp add: review_order_def)
next
  fix inputs ds
  assume a: "distinct (map fst gs) \<and> human_review gs inputs = Inr ds"
  have "distinct (map fst (review_order gs))"
    using a by (simp add: review_order_def distinct_map)
  with a show "map fst ds = map fst (review_order gs)"
    using review_loop_keys [of "review_order gs" inputs "[]" ds] by (simp add: human_review_def)
qed

theorem review_order_sorted_stable_witness:
  "distinct (map fst (rev ex_groups))
   \<and> map fst (rev ex_groups) = [''b@y.com'', ''a@x.com'']
   \<and> human_review (rev ex_groups) [''d'', ''''] = Inr [(''a@x.com'', Delete), (''b@y.com'', Skip)]
   \<and> map fst (review_order (rev ex_groups)) = [''a@x.com'', ''b@y.com'']
   \<and> sorted_wrt (\<lambda>a b. a \<ge> b) (map (\<lambda>x. group_count (snd x)) (review_order (rev ex_groups)))"
proof -
  have d: "distinct (map fst (rev ex_groups))"
    and k: "map fst (rev ex_groups) = [''b@y.com'', ''a@x.com'']"
    by (simp_all add: ex_groups_def)
  have h: "human_review (rev ex_groups) [''d'', '''']
             = Inr [(''a@x.com'', Delete), (''b@y.com'', Skip)]"
    by (simp add: human_review_def review_order_def ex_groups_def py_strip_def py_isspace_def
        py_lower_def py_lower_char_def)
  note t = review_order_sorted_stable [of "rev ex_groups"]
  from t d h have "map fst [(''a@x.com'', Delete), (''b@y.com'', Skip)]
      = map fst (review_order (rev ex_groups))" by blast
  with t d k h show ?thesis by simp
qed

section \<open>Verification: the log of the execute step\<close>


lemma written_paths_append: "written_paths (xs @ ys) = written_paths xs @ written_paths ys"
  by (induction xs rule: written_paths.induct) auto

lemma trash_calls_append: "trash_calls (xs @ ys) = trash_calls xs @ trash_calls ys"
  by (induction xs rule: trash_calls.induct) auto

lemma trash_ok_append: "trash_ok (xs @ ys) = trash_ok xs @ trash_ok ys"
  by (induction xs rule: trash_ok.induct) auto

lemma file_at_append:
  "file_at (xs @ ys) p = (case file_at ys p of Some a \<Rightarrow> Some a | None \<Rightarrow> file_at xs p)"
  by (induction xs p rule: file_at.induct) (auto split: option.splits)



lemma writes_paths:
  "list_all2 (archive_write dir s) es ws \<Longrightarrow> written_paths ws = map (archive_path dir s) es"
  by (induction rule: list_all2_induct) (auto simp: archive_write_def split: event.splits)

lemma writes_no_trash:
  "list_all2 (archive_write dir s) es ws \<Longrightarrow> trash_calls ws = [] \<and> trash_ok ws = []"
  by (induction rule: list_all2_induct) (auto simp: archive_write_def split: event.splits)

lemma writes_sender:
  "list_all2 (archive_write dir s) es ws \<Longrightarrow> ev \<in> set ws \<Longrightarrow> event_sender ev = s"
  by (induction rule: list_all2_induct) (auto simp: archive_write_def split: event.splits)






text \<open>The trash calls of a block.\<close>

lemma trashes_saved_for:
  "list_all2 (trash_event s) es ts \<Longrightarrow> saved_for s' ts = []"
  by (induction rule: list_all2_induct) (auto simp: trash_event_def split: event.splits)

lemma trashes_no_write:
  "list_all2 (trash_event s) es ts \<Longrightarrow> written_paths ts = []"
  by (induction rule: list_all2_induct) (auto simp: trash_event_def split: event.splits)

lemma trashes_file_at:
  "list_all2 (trash_event s) es ts \<Longrightarrow> file_at ts p = None"
  by (induction rule: list_all2_induct) (auto simp: trash_event_def split: event.splits)

lemma trashes_calls:
  "list_all2 (trash_event s) es ts \<Longrightarrow> trash_calls ts = map id' es"
  by (induction rule: list_all2_induct) (auto simp: trash_event_def split: event.splits)

lemma trashes_sender:
  "list_all2 (trash_event s) es ts \<Longrightarrow> ev \<in> set ts \<Longrightarrow> event_sender ev = s"
  by (induction rule: list_all2_induct) (auto simp: trash_event_def split: event.splits)



text \<open>The three loops produce logs of these shapes.\<close>

lemma save_loop_shape:
  "save_loop w dir s (safe_sender_of s) es st = (out, st') \<Longrightarrow>
   \<exists>ws n. trace st' = trace st @ ws \<and> saved st' = saved st @ written_paths ws
     \<and> trashed st' = trashed st
     \<and> list_all2 (archive_write dir s) (take n es) ws
     \<and> (out = None \<and> n = length es \<or> out = Some OSError \<and> n < length es)"
proof (induction es arbitrary: st)
  case Nil
  then show ?case by auto
next
  case (Cons e es)
  let ?p = "path_join dir (archive_filename e (safe_sender_of s))"
  let ?ev = "WriteFile ?p \<lparr>email = e, archived_at = utcnow w (trace st), decision = Delete,
                            sender_normalized = s\<rparr>"
  show ?case
  proof (cases "write_raises w (trace st) ?p")
    case True
    with Cons.prems have "out = Some OSError" "st' = st" by (simp_all add: Let_def)
    then show ?thesis
      by (intro exI [of _ "[]"] exI [of _ 0]) simp
  next
    case False
    with Cons.prems have
      "save_loop w dir s (safe_sender_of s) es
         (st\<lparr>trace := trace st @ [?ev], saved := saved st @ [?p]\<rparr>) = (out, st')"
      by (simp add: Let_def)
    from Cons.IH [OF this] obtain ws n where
      t: "trace st' = (trace st @ [?ev]) @ ws"
      and sv: "saved st' = (saved st @ [?p]) @ written_paths ws"
      and tr: "trashed st' = trashed st"
      and wr: "list_all2 (archive_write dir s) (take n es) ws"
      and o: "out = None \<and> n = length es \<or> out = Some OSError \<and> n < length es"
      by auto
    have "archive_write dir s e ?ev"
      by (simp add: archive_write_def archive_path_def)
    with wr have "list_all2 (archive_write dir s) (take (Suc n) (e # es)) (?ev # ws)" by simp
    moreover have "trace st' = trace st @ (?ev # ws)" using t by simp
    moreover have "saved st' = saved st @ written_paths (?ev # ws)" using sv by simp
    moreover have "out = None \<and> Suc n = length (e # es) \<or> out = Some OSError \<and> Suc n < length (e # es)"
      using o by auto
    ultimately show ?thesis using tr by blast
  qed
qed


lemma trash_loop_shape:
  "trash_loop w s es st = (out, st') \<Longrightarrow>
   \<exists>ts. trace st' = trace st @ ts
     \<and> saved st' = saved st
     \<and> trashed st' = trashed st @ trash_ok ts
     \<and> (out = None \<and> list_all2 (trash_event s) es ts
        \<or> (\<exists>n err ts'. out = Some err \<and> err \<noteq> HttpError \<and> n < length es
              \<and> list_all2 (trash_event s) (take n es) ts'
              \<and> ts = ts' @ [TrashCall s (id' (es ! n)) (Some err)]))"
proof (induction es arbitrary: st)
  case Nil
  then show ?case by simp
next
  case (Cons e es)
  let ?r = "trash_raises w (trace st) (id' e)"
  let ?ev = "TrashCall s (id' e) ?r"
  show ?case
  proof (cases "?r = None \<or> ?r = Some HttpError")
    case False
    then obtain err where r: "?r = Some err" and ne: "err \<noteq> HttpError" by auto
    with Cons.prems have o: "out = Some err"
      and s': "st' = st\<lparr>trace := trace st @ [?ev]\<rparr>" by auto
    have "list_all2 (trash_event s) (take 0 (e # es)) []" by simp
    moreover have "[?ev] = [] @ [TrashCall s (id' ((e # es) ! 0)) (Some err)]" using r by simp
    moreover have "trash_ok [?ev] = []" using r by simp
    ultimately show ?thesis using o ne s' by (intro exI [of _ "[?ev]"]) force
  next
    case True
    let ?st1 = "if ?r = None
                then st\<lparr>trace := trace st @ [?ev], trashed := trashed st @ [id' e]\<rparr>
                else st\<lparr>trace := trace st @ [?ev]\<rparr>"
    have step: "trash_loop w s (e # es) st = trash_loop w s es ?st1"
      using True by auto
    with Cons.prems have "trash_loop w s es ?st1 = (out, st')" by simp
    from Cons.IH [OF this] obtain ts where
      t: "trace st' = trace ?st1 @ ts" and sv: "saved st' = saved ?st1"
      and tr: "trashed st' = trashed ?st1 @ trash_ok ts"
      and sh: "out = None \<and> list_all2 (trash_event s) es ts
        \<or> (\<exists>n err ts'. out = Some err \<and> err \<noteq> HttpError \<and> n < length es
              \<and> list_all2 (trash_event s) (take n es) ts'
              \<and> ts = ts' @ [TrashCall s (id' (es ! n)) (Some err)])"
      by blast
    have ev: "trash_event s e ?ev" using True by (simp add: trash_event_def)
    have t': "trace st' = trace st @ (?ev # ts)" using t by simp
    have sv': "saved st' = saved st" using sv by simp
    have tr': "trashed st' = trashed st @ trash_ok (?ev # ts)" using tr by simp
    from sh have "out = None \<and> list_all2 (trash_event s) (e # es) (?ev # ts)
        \<or> (\<exists>n err ts'. out = Some err \<and> err \<noteq> HttpError \<and> n < length (e # es)
              \<and> list_all2 (trash_event s) (take n (e # es)) ts'
              \<and> ?ev # ts = ts' @ [TrashCall s (id' ((e # es) ! n)) (Some err)])"
    proof
      assume "out = None \<and> list_all2 (trash_event s) es ts"
      then show ?thesis using ev by simp
    next
      assume "\<exists>n err ts'. out = Some err \<and> err \<noteq> HttpError \<and> n < length es
              \<and> list_all2 (trash_event s) (take n es) ts'
              \<and> ts = ts' @ [TrashCall s (id' (es ! n)) (Some err)]"
      then obtain n err ts' where o: "out = Some err" "err \<noteq> HttpError" "n < length es"
        and l: "list_all2 (trash_event s) (take n es) ts'"
        and e: "ts = ts' @ [TrashCall s (id' (es ! n)) (Some err)]" by blast
      have "list_all2 (trash_event s) (take (Suc n) (e # es)) (?ev # ts')" using l ev by simp
      moreover have "?ev # ts = (?ev # ts') @ [TrashCall s (id' ((e # es) ! Suc n)) (Some err)]"
        using e by simp
      moreover have "Suc n < length (e # es)" using o(3) by simp
      ultimately show ?thesis using o(1,2) by blast
    qed
    then show ?thesis using t' sv' tr' by blast
  qed
qed

lemma execute_loop_shape:
  "execute_loop w dir gs ds st = (out, st') \<Longrightarrow>
   \<exists>new. trace st' = trace st @ new \<and> saved st' = saved st @ written_paths new
     \<and> trashed st' = trashed st @ trash_ok new
     \<and> run_shape dir (targets gs ds) out new"
proof (induction ds arbitrary: st)
  case Nil
  then show ?case by (auto intro: run_shape.finished)
next
  case (Cons sd ds)
  obtain s d where sd: "sd = (s, d)" by (cases sd)
  show ?case
  proof (cases "d = Delete \<and> map_of gs s \<noteq> None")
    case False
    then have "execute_loop w dir gs ds st = (out, st')" "targets gs (sd # ds) = targets gs ds"
      using Cons.prems sd by (auto split: option.splits)
    then show ?thesis using Cons.IH by simp
  next
    case True
    then obtain g where g: "map_of gs s = Some g" and d: "d = Delete" by auto
    have tg: "targets gs (sd # ds) = (s, g) # targets gs ds" using sd g d by simp
    obtain o1 st1 where sl: "save_loop w dir s (safe_sender_of s) (group_emails g) st = (o1, st1)"
      by (cases "save_loop w dir s (safe_sender_of s) (group_emails g) st")
    from save_loop_shape [OF sl] obtain ws n where
      t1: "trace st1 = trace st @ ws" and sv1: "saved st1 = saved st @ written_paths ws"
      and tr1: "trashed st1 = trashed st"
      and wr: "list_all2 (archive_write dir s) (take n (group_emails g)) ws"
      and o: "o1 = None \<and> n = length (group_emails g) \<or> o1 = Some OSError \<and> n < length (group_emails g)"
      by blast
    from o show ?thesis
    proof
      assume a: "o1 = Some OSError \<and> n < length (group_emails g)"
      then have "out = Some OSError" "st' = st1"
        using Cons.prems sd g d sl by simp_all
      moreover have "run_shape dir ((s, g) # targets gs ds) (Some OSError) ws"
        using a wr by (auto intro: run_shape.aborted)
      moreover have "trash_ok ws = []" using writes_no_trash [OF wr] by simp
      ultimately show ?thesis using t1 sv1 tr1 tg by auto
    next
      assume a: "o1 = None \<and> n = length (group_emails g)"
      have wr': "list_all2 (archive_write dir s) (group_emails g) ws" using wr a by simp
      obtain o2 st2 where tlp: "trash_loop w s (group_emails g) st1 = (o2, st2)"
        by (cases "trash_loop w s (group_emails g) st1")
      from trash_loop_shape [OF tlp] obtain ts where
        t2: "trace st2 = trace st1 @ ts" and sv2: "saved st2 = saved st1"
        and tr2: "trashed st2 = trashed st1 @ trash_ok ts"
        and sh: "o2 = None \<and> list_all2 (trash_event s) (group_emails g) ts
          \<or> (\<exists>n err ts'. o2 = Some err \<and> err \<noteq> HttpError \<and> n < length (group_emails g)
                \<and> list_all2 (trash_event s) (take n (group_emails g)) ts'
                \<and> ts = ts' @ [TrashCall s (id' (group_emails g ! n)) (Some err)])"
        by blast
      from sh show ?thesis
      proof
        assume b: "o2 = None \<and> list_all2 (trash_event s) (group_emails g) ts"
        then have tl: "list_all2 (trash_event s) (group_emails g) ts" by simp
        from a b have rest: "execute_loop w dir gs ds st2 = (out, st')"
          using Cons.prems sd g d sl tlp by simp
        from Cons.IH [OF rest] obtain new where
          t3: "trace st' = trace st2 @ new" and sv3: "saved st' = saved st2 @ written_paths new"
          and tr3: "trashed st' = trashed st2 @ trash_ok new"
          and rs: "run_shape dir (targets gs ds) out new"
          by blast
        have "run_shape dir ((s, g) # targets gs ds) out (ws @ ts @ new)"
          using wr' tl rs by (rule run_shape.block)
        moreover have "trace st' = trace st @ (ws @ ts @ new)"
          using t1 t2 t3 by simp
        moreover have "saved st' = saved st @ written_paths (ws @ ts @ new)"
          using sv1 sv2 sv3 trashes_no_write [OF tl] by (simp add: written_paths_append)
        moreover have "trashed st' = trashed st @ trash_ok (ws @ ts @ new)"
          using tr1 tr2 tr3 writes_no_trash [OF wr'] by (simp add: trash_ok_append)
        ultimately show ?thesis using tg by auto
      next
        assume "\<exists>n err ts'. o2 = Some err \<and> err \<noteq> HttpError \<and> n < length (group_emails g)
                \<and> list_all2 (trash_event s) (take n (group_emails g)) ts'
                \<and> ts = ts' @ [TrashCall s (id' (group_emails g ! n)) (Some err)]"
        then obtain m err ts' where o2: "o2 = Some err" and ne: "err \<noteq> HttpError"
          and m: "m < length (group_emails g)"
          and tl: "list_all2 (trash_event s) (take m (group_emails g)) ts'"
          and ts: "ts = ts' @ [TrashCall s (id' (group_emails g ! m)) (Some err)]" by blast
        from a o2 have fin: "out = Some err" "st' = st2"
          using Cons.prems sd g d sl tlp by simp_all
        have "run_shape dir ((s, g) # targets gs ds) (Some err)
                (ws @ ts' @ [TrashCall s (id' (group_emails g ! m)) (Some err)])"
          using wr' m tl ne by (rule run_shape.trash_aborted)
        moreover have "trace st' = trace st @ (ws @ ts)" using t1 t2 fin by simp
        moreover have "written_paths ts = []"
          using trashes_no_write [OF tl] ts by (simp add: written_paths_append)
        then have "saved st' = saved st @ written_paths (ws @ ts)"
          using sv1 sv2 fin by (simp add: written_paths_append)
        moreover have "trashed st' = trashed st @ trash_ok (ws @ ts)"
          using tr1 tr2 fin writes_no_trash [OF wr'] by (simp add: trash_ok_append)
        ultimately show ?thesis using tg fin ts by auto
      qed
    qed
  qed
qed

lemma saved_for_none:
  "\<forall>ev \<in> set evs. event_sender ev \<noteq> s \<Longrightarrow> saved_for s evs = []"
  by (induction s evs rule: saved_for.induct) auto


lemma targets_member:
  "(s, g) \<in> set (targets gs ds) \<Longrightarrow> map_of gs s = Some g \<and> (s, Delete) \<in> set ds"
  by (induction gs ds rule: targets.induct) (auto split: if_splits option.splits)




lemma run_senders:
  "run_shape dir tg out new \<Longrightarrow> ev \<in> set new \<Longrightarrow> event_sender ev \<in> fst ` set tg"
proof (induction rule: run_shape.induct)
  case (finished dir)
  then show ?case by simp
next
  case (aborted n g dir s ws tg)
  then show ?case using writes_sender by fastforce
next
  case (trash_aborted dir s g ws n ts err tg)
  from trash_aborted.prems consider "ev \<in> set ws" | "ev \<in> set ts"
    | "ev = TrashCall s (id' (group_emails g ! n)) (Some err)" by auto
  then show ?case
  proof cases
    case 1
    then show ?thesis using writes_sender [OF trash_aborted.hyps(1)] by simp
  next
    case 2
    then show ?thesis using trashes_sender [OF trash_aborted.hyps(3)] by simp
  next
    case 3
    then show ?thesis by simp
  qed
next
  case (block dir s g ws ts tg out rest)
  from block.prems consider "ev \<in> set ws" | "ev \<in> set ts" | "ev \<in> set rest" by auto
  then show ?case
  proof cases
    case 1
    then show ?thesis using writes_sender [OF block.hyps(1)] by simp
  next
    case 2
    then show ?thesis using trashes_sender [OF block.hyps(2)] by simp
  next
    case 3
    then show ?thesis using block.IH by auto
  qed
qed


lemma run_complete:
  "run_shape dir tg out new \<Longrightarrow> out = None \<Longrightarrow>
   trash_calls new = concat (map (\<lambda>(s, g). map id' (group_emails g)) tg)
   \<and> written_paths new = concat (map (\<lambda>(s, g). map (archive_path dir s) (group_emails g)) tg)"
proof (induction rule: run_shape.induct)
  case (finished dir)
  show ?case by simp
next
  case (aborted n g dir s ws tg)
  then show ?case by simp
next
  case (trash_aborted dir s g ws n ts err tg)
  then show ?case by simp
next
  case (block dir s g ws ts tg out rest)
  then show ?case
    using writes_no_trash [OF block.hyps(1)] writes_paths [OF block.hyps(1)]
      trashes_calls [OF block.hyps(2)] trashes_no_write [OF block.hyps(2)]
    by (simp add: trash_calls_append written_paths_append)
qed


lemma run_trash_ids:
  "run_shape dir tg out new \<Longrightarrow> i \<in> set (trash_calls new) \<Longrightarrow>
   \<exists>(s, g) \<in> set tg. i \<in> id' ` set (group_emails g)"
proof (induction rule: run_shape.induct)
  case (finished dir)
  then show ?case by simp
next
  case (aborted n g dir s ws tg)
  then show ?case using writes_no_trash by fastforce
next
  case (trash_aborted dir s g ws n ts err tg)
  have "set (trash_calls (ws @ ts @ [TrashCall s (id' (group_emails g ! n)) (Some err)]))
      \<subseteq> id' ` set (group_emails g)"
    using writes_no_trash [OF trash_aborted.hyps(1)] trashes_calls [OF trash_aborted.hyps(3)]
      trash_aborted.hyps(2)
    by (auto simp: trash_calls_append dest: in_set_takeD)
  then show ?case using trash_aborted.prems by auto
next
  case (block dir s g ws ts tg out rest)
  then show ?case
    using writes_no_trash [OF block.hyps(1)] trashes_calls [OF block.hyps(2)]
    by (auto simp: trash_calls_append)
qed

lemma writes_emails:
  "list_all2 (archive_write dir s) es ws \<Longrightarrow> WriteFile p a \<in> set ws \<Longrightarrow>
   email a \<in> set es \<and> sender_normalized a = s"
  by (induction rule: list_all2_induct) (auto simp: archive_write_def)

lemma trashes_not_write:
  "list_all2 (trash_event s) es ts \<Longrightarrow> WriteFile p a \<notin> set ts"
  by (induction rule: list_all2_induct) (auto simp: trash_event_def split: event.splits)

lemma run_write_emails:
  "run_shape dir tg out new \<Longrightarrow> WriteFile p a \<in> set new \<Longrightarrow>
   \<exists>(s, g) \<in> set tg. email a \<in> set (group_emails g) \<and> sender_normalized a = s"
proof (induction rule: run_shape.induct)
  case (finished dir)
  then show ?case by simp
next
  case (aborted n g dir s ws tg)
  from writes_emails [OF aborted.hyps(2) aborted.prems]
  have "email a \<in> set (group_emails g)" "sender_normalized a = s"
    by (auto dest: in_set_takeD)
  then show ?case by simp
next
  case (trash_aborted dir s g ws n ts err tg)
  from trash_aborted.prems trashes_not_write [OF trash_aborted.hyps(3)]
  have "WriteFile p a \<in> set ws" by auto
  from writes_emails [OF trash_aborted.hyps(1) this] show ?case by simp
next
  case (block dir s g ws ts tg out rest)
  then show ?case
    using writes_emails [OF block.hyps(1)] trashes_not_write [OF block.hyps(2)]
    by auto
qed

text \<open>The log of a whole run.\<close>

lemma execute_actions_shape:
  "execute_actions w dir gs ds = (out, st) \<Longrightarrow>
   saved st = written_paths (trace st) \<and> trashed st = trash_ok (trace st)
   \<and> run_shape dir (targets gs ds) out (trace st)"
  using execute_loop_shape [of w dir gs ds "\<lparr>trace = [], saved = [], trashed = []\<rparr>" out st]
  by (auto simp: execute_actions_def)


text \<open>The groups of a run, as the group stage builds them.\<close>

lemma map_of_tabulate:
  "map_of (map (\<lambda>k. (k, f k)) ks) s = Some g \<Longrightarrow> g = f s \<and> s \<in> set ks"
  by (induction ks) (auto split: if_splits)

lemma group_by_sender_group:
  assumes "group_by_sender es = Inr gs" "map_of gs s = Some g"
  shows "g = mk_group s es"
proof -
  from group_by_sender_tabulate [of es] assms(1) obtain ks where
    "gs = map (\<lambda>k. (k, mk_group k es)) ks" by auto
  with assms(2) show ?thesis using map_of_tabulate by fastforce
qed

section \<open>Verification: execute\<close>

lemmas ex_run_defs =
  execute_actions_def ex_world_def ex_groups_def ex_decisions_def ex_emails_def ex_trace_def
  ex_pre_def ex_archive_def ex_final_def safe_sender_of_def py_replace_def archive_filename_def
  path_join_def archive_path_def Let_def

lemma ex_run:
  "execute_actions ex_world ''saved_emails'' ex_groups ex_decisions = (None, ex_final)"
  by (simp add: ex_run_defs)

lemma ex_grouping: "group_by_sender ex_emails = Inr ex_groups"
  by code_simp



lemma trashes_events:
  "list_all2 (trash_event s) es ts \<Longrightarrow> TrashCall s' i r \<in> set ts \<Longrightarrow>
   s' = s \<and> i \<in> id' ` set es"
  by (induction rule: list_all2_induct) (auto simp: trash_event_def)

lemma writes_not_trash:
  "list_all2 (archive_write dir s) es ws \<Longrightarrow> TrashCall s' i r \<notin> set ws"
  by (induction rule: list_all2_induct) (auto simp: archive_write_def split: event.splits)

lemma writes_have:
  "list_all2 (archive_write dir s) es ws \<Longrightarrow> e \<in> set es \<Longrightarrow>
   \<exists>a. WriteFile (archive_path dir s e) a \<in> set ws \<and> email a = e"
  by (induction rule: list_all2_induct)
     (auto simp: archive_write_def split: event.splits)

lemma run_trash_events:
  "run_shape dir tg out new \<Longrightarrow> TrashCall s i r \<in> set new \<Longrightarrow>
   \<exists>g e. (s, g) \<in> set tg \<and> e \<in> set (group_emails g) \<and> id' e = i
     \<and> (\<exists>a. WriteFile (archive_path dir s e) a \<in> set new \<and> email a = e)"
proof (induction rule: run_shape.induct)
  case (finished dir)
  then show ?case by simp
next
  case (aborted n g dir s' ws tg)
  then show ?case using writes_not_trash by blast
next
  case (trash_aborted dir s' g ws n ts err tg)
  let ?last = "TrashCall s' (id' (group_emails g ! n)) (Some err)"
  from trash_aborted.prems writes_not_trash [OF trash_aborted.hyps(1)]
  consider "TrashCall s i r \<in> set ts" | "TrashCall s i r = ?last" by auto
  then obtain e where s: "s = s'" and e: "e \<in> set (group_emails g)" and i: "id' e = i"
  proof cases
    case 1
    from trashes_events [OF trash_aborted.hyps(3) 1] show ?thesis
      using that by (auto dest: in_set_takeD)
  next
    case 2
    then show ?thesis using that [of "group_emails g ! n"] trash_aborted.hyps(2) by simp
  qed
  from writes_have [OF trash_aborted.hyps(1) e] obtain a where
    "WriteFile (archive_path dir s' e) a \<in> set ws" "email a = e" by blast
  then show ?case using s e i by auto
next
  case (block dir s' g ws ts tg out rest)
  from block.prems writes_not_trash [OF block.hyps(1)]
  consider "TrashCall s i r \<in> set ts" | "TrashCall s i r \<in> set rest" by auto
  then show ?case
  proof cases
    case 1
    from trashes_events [OF block.hyps(2) 1] obtain e where
      s: "s = s'" and e: "e \<in> set (group_emails g)" and i: "id' e = i" by auto
    from writes_have [OF block.hyps(1) e] obtain a where
      "WriteFile (archive_path dir s' e) a \<in> set ws" "email a = e" by blast
    then show ?thesis using s e i by auto
  next
    case 2
    from block.IH [OF 2] obtain g' e a where
      "(s, g') \<in> set tg" "e \<in> set (group_emails g')" "id' e = i"
      "WriteFile (archive_path dir s e) a \<in> set rest" "email a = e" by blast
    then show ?thesis by auto
  qed
qed

lemma file_at_written: "file_at evs p \<noteq> None \<longleftrightarrow> p \<in> set (written_paths evs)"
  by (induction evs p rule: file_at.induct) (auto split: option.splits)

lemma file_at_distinct:
  "distinct (written_paths evs) \<Longrightarrow> WriteFile p a \<in> set evs \<Longrightarrow> file_at evs p = Some a"
proof (induction evs p rule: file_at.induct)
  case (1 p)
  then show ?case by simp
next
  case (2 q b evs p)
  have nq: "file_at evs q = None" using "2.prems"(1) file_at_written [of evs q] by auto
  show ?case
  proof (cases "WriteFile p a \<in> set evs")
    case True
    then show ?thesis using 2 by simp
  next
    case False
    then have "p = q" "a = b" using "2.prems"(2) by auto
    then show ?thesis using nq by simp
  qed
next
  case (3 s i r evs p)
  then show ?case by simp
qed

lemma trash_ok_set: "i \<in> set (trash_ok evs) \<longleftrightarrow> (\<exists>s. TrashCall s i None \<in> set evs)"
  by (induction evs rule: trash_ok.induct) auto

lemma writes_caught:
  "list_all2 (archive_write dir s) es ws \<Longrightarrow> ev \<in> set ws \<Longrightarrow> \<not> uncaught_failure ev"
  by (induction rule: list_all2_induct) (auto simp: archive_write_def split: event.splits)

lemma trashes_caught:
  "list_all2 (trash_event s) es ts \<Longrightarrow> ev \<in> set ts \<Longrightarrow> \<not> uncaught_failure ev"
  by (induction rule: list_all2_induct) (auto simp: trash_event_def split: event.splits)

lemma run_no_uncaught:
  "run_shape dir tg out new \<Longrightarrow> out = None \<Longrightarrow> ev \<in> set new \<Longrightarrow> \<not> uncaught_failure ev"
proof (induction rule: run_shape.induct)
  case (finished dir)
  then show ?case by simp
next
  case (aborted n g dir s ws tg)
  then show ?case by simp
next
  case (trash_aborted dir s g ws n ts err tg)
  then show ?case by simp
next
  case (block dir s g ws ts tg out rest)
  from block.prems(2) consider "ev \<in> set ws" | "ev \<in> set ts" | "ev \<in> set rest" by auto
  then show ?case
  proof cases
    case 1
    then show ?thesis using writes_caught [OF block.hyps(1)] by simp
  next
    case 2
    then show ?thesis using trashes_caught [OF block.hyps(2)] by simp
  next
    case 3
    then show ?thesis using block.IH block.prems(1) by simp
  qed
qed

lemma run_uncaught_butlast:
  "run_shape dir tg out new \<Longrightarrow> ev \<in> set (butlast new) \<Longrightarrow> \<not> uncaught_failure ev"
proof (induction rule: run_shape.induct)
  case (finished dir)
  then show ?case by simp
next
  case (aborted n g dir s ws tg)
  then show ?case using writes_caught [OF aborted.hyps(2)] by (auto dest: in_set_butlastD)
next
  case (trash_aborted dir s g ws n ts err tg)
  have "butlast (ws @ ts @ [TrashCall s (id' (group_emails g ! n)) (Some err)]) = ws @ ts"
    by (simp add: butlast_append)
  with trash_aborted.prems consider "ev \<in> set ws" | "ev \<in> set ts" by auto
  then show ?case
    using writes_caught [OF trash_aborted.hyps(1)] trashes_caught [OF trash_aborted.hyps(3)]
    by cases simp_all
next
  case (block dir s g ws ts tg out rest)
  show ?case
  proof (cases "rest = []")
    case True
    with block.prems have "ev \<in> set (ws @ ts)" by (auto dest: in_set_butlastD)
    then show ?thesis
      using writes_caught [OF block.hyps(1)] trashes_caught [OF block.hyps(2)] by auto
  next
    case False
    then have "butlast (ws @ ts @ rest) = ws @ ts @ butlast rest" by (simp add: butlast_append)
    with block.prems consider "ev \<in> set ws" | "ev \<in> set ts" | "ev \<in> set (butlast rest)"
      by auto
    then show ?thesis
      using writes_caught [OF block.hyps(1)] trashes_caught [OF block.hyps(2)] block.IH
      by cases simp_all
  qed
qed

lemma run_uncaught_last:
  "run_shape dir tg out new \<Longrightarrow> new \<noteq> [] \<Longrightarrow> uncaught_failure (last new) \<Longrightarrow>
   \<exists>s i err. last new = TrashCall s i (Some err) \<and> out = Some err"
proof (induction rule: run_shape.induct)
  case (finished dir)
  then show ?case by simp
next
  case (aborted n g dir s ws tg)
  then show ?case using writes_caught [OF aborted.hyps(2)] by (meson last_in_set)
next
  case (trash_aborted dir s g ws n ts err tg)
  show ?case by simp
next
  case (block dir s g ws ts tg out rest)
  show ?case
  proof (cases "rest = []")
    case True
    then have "last (ws @ ts @ rest) \<in> set (ws @ ts)"
      using block.prems(1) last_in_set [of "ws @ ts"] by simp
    then have "\<not> uncaught_failure (last (ws @ ts @ rest))"
      using writes_caught [OF block.hyps(1)] trashes_caught [OF block.hyps(2)] by auto
    with block.prems(2) show ?thesis by simp
  next
    case False
    then show ?thesis using block.IH block.prems(2) by simp
  qed
qed

text \<open>When no write raises and no trash call raises anything but \<open>HttpError\<close>, the run completes.\<close>

lemma save_loop_no_raise:
  "\<forall>evs p. \<not> write_raises w evs p \<Longrightarrow> fst (save_loop w dir s safe es st) = None"
  by (induction es arbitrary: st) (simp_all add: Let_def)

lemma trash_loop_no_raise:
  "\<forall>evs i. trash_raises w evs i = None \<or> trash_raises w evs i = Some HttpError \<Longrightarrow>
   fst (trash_loop w s es st) = None"
proof (induction es arbitrary: st)
  case Nil
  show ?case by simp
next
  case (Cons e es)
  from Cons.prems have "trash_raises w (trace st) (id' e) = None
      \<or> trash_raises w (trace st) (id' e) = Some HttpError" by blast
  then show ?case using Cons.IH [OF Cons.prems] by auto
qed

lemma execute_loop_no_raise:
  assumes wr: "\<forall>evs p. \<not> write_raises w evs p"
    and tr: "\<forall>evs i. trash_raises w evs i = None \<or> trash_raises w evs i = Some HttpError"
  shows "fst (execute_loop w dir gs ds st) = None"
proof (induction ds arbitrary: st)
  case Nil
  show ?case by simp
next
  case (Cons sd ds)
  obtain s d where sd: "sd = (s, d)" by (cases sd)
  show ?case
  proof (cases "d = Delete \<and> map_of gs s \<noteq> None")
    case False
    then show ?thesis using Cons.IH sd by (auto split: option.splits)
  next
    case True
    then obtain g where g: "map_of gs s = Some g" and d: "d = Delete" by auto
    obtain o1 st1 where sl: "save_loop w dir s (safe_sender_of s) (group_emails g) st = (o1, st1)"
      by (cases "save_loop w dir s (safe_sender_of s) (group_emails g) st")
    obtain o2 st2 where tl: "trash_loop w s (group_emails g) st1 = (o2, st2)"
      by (cases "trash_loop w s (group_emails g) st1")
    have "o1 = None"
      using save_loop_no_raise [OF wr, of dir s "safe_sender_of s" "group_emails g" st] sl by simp
    moreover have "o2 = None"
      using trash_loop_no_raise [OF tr, of s "group_emails g" st1] tl by simp
    ultimately show ?thesis using Cons.IH [of st2] sd g d sl tl by simp
  qed
qed

text \<open>
  C5, as amended. A trash call that raises \<open>HttpError\<close> is reported and skipped; an
  exception of any other kind is not caught and ends the run at that call. In every run:
  the trashed ids are exactly the ids whose call succeeded, so the id of a failed call is
  left out unless another call for it succeeded; a call that raised another exception than
  \<open>HttpError\<close> is the last event and its exception is the outcome of the run; and for
  every call that raised \<open>HttpError\<close> the archive written for that message is in the saved
  list and its file is still there, holding that very email when the saved paths are
  distinct. When no write raises and no trash call raises anything but \<open>HttpError\<close>, the
  run completes; and in a run that completes, the trash endpoint was called for every
  message of every delete-marked group, in order, and every archive path is in the saved
  list.
\<close>

theorem trash_failure_skipped:
  assumes ex: "execute_actions w dir gs ds = (out, st)"
  shows "trashed st = trash_ok (trace st)
    \<and> (\<forall>i. i \<in> set (trashed st) \<longleftrightarrow> (\<exists>s. TrashCall s i None \<in> set (trace st)))
    \<and> (\<forall>ev \<in> set (butlast (trace st)). \<not> uncaught_failure ev)
    \<and> (trace st \<noteq> [] \<and> uncaught_failure (last (trace st)) \<longrightarrow>
          (\<exists>s i err. last (trace st) = TrashCall s i (Some err) \<and> out = Some err))
    \<and> (\<forall>s i. TrashCall s i (Some HttpError) \<in> set (trace st) \<longrightarrow>
          (\<exists>g e. (s, g) \<in> set (targets gs ds) \<and> e \<in> set (group_emails g) \<and> id' e = i
             \<and> archive_path dir s e \<in> set (saved st)
             \<and> (\<exists>a. file_at (trace st) (archive_path dir s e) = Some a
                   \<and> (distinct (saved st) \<longrightarrow> email a = e))))
    \<and> ((\<forall>evs p. \<not> write_raises w evs p)
         \<and> (\<forall>evs i. trash_raises w evs i = None \<or> trash_raises w evs i = Some HttpError)
         \<longrightarrow> out = None)
    \<and> (out = None \<longrightarrow>
          trash_calls (trace st)
            = concat (map (\<lambda>(s, g). map id' (group_emails g)) (targets gs ds))
          \<and> saved st
            = concat (map (\<lambda>(s, g). map (archive_path dir s) (group_emails g)) (targets gs ds))
          \<and> (\<forall>ev \<in> set (trace st). \<not> uncaught_failure ev))"
proof -
  from execute_actions_shape [OF ex] have sv: "saved st = written_paths (trace st)"
    and tr: "trashed st = trash_ok (trace st)"
    and rs: "run_shape dir (targets gs ds) out (trace st)" by simp_all
  have ids: "\<forall>i. i \<in> set (trashed st) \<longleftrightarrow> (\<exists>s. TrashCall s i None \<in> set (trace st))"
    unfolding tr by (simp add: trash_ok_set)
  have inner: "\<forall>ev \<in> set (butlast (trace st)). \<not> uncaught_failure ev"
    using run_uncaught_butlast [OF rs] by blast
  have final: "trace st \<noteq> [] \<and> uncaught_failure (last (trace st)) \<longrightarrow>
          (\<exists>s i err. last (trace st) = TrashCall s i (Some err) \<and> out = Some err)"
    using run_uncaught_last [OF rs] by blast
  have caught: "\<forall>s i. TrashCall s i (Some HttpError) \<in> set (trace st) \<longrightarrow>
          (\<exists>g e. (s, g) \<in> set (targets gs ds) \<and> e \<in> set (group_emails g) \<and> id' e = i
             \<and> archive_path dir s e \<in> set (saved st)
             \<and> (\<exists>a. file_at (trace st) (archive_path dir s e) = Some a
                   \<and> (distinct (saved st) \<longrightarrow> email a = e)))"
  proof (intro allI impI)
    fix s i assume "TrashCall s i (Some HttpError) \<in> set (trace st)"
    from run_trash_events [OF rs this] obtain g e a where
      g: "(s, g) \<in> set (targets gs ds)" and e: "e \<in> set (group_emails g)" and i: "id' e = i"
      and wf: "WriteFile (archive_path dir s e) a \<in> set (trace st)" and a: "email a = e"
      by blast
    have "file_at (trace st) (archive_path dir s e) \<noteq> None"
    proof (rule ccontr)
      assume "\<not> file_at (trace st) (archive_path dir s e) \<noteq> None"
      then have "file_at (trace st) (archive_path dir s e) = None" by simp
      moreover have "\<And>evs. WriteFile p b \<in> set evs \<Longrightarrow> file_at evs p \<noteq> None" for p b
      proof -
        fix evs :: "event list"
        show "WriteFile p b \<in> set evs \<Longrightarrow> file_at evs p \<noteq> None"
          by (induction evs p rule: file_at.induct) (auto split: option.splits)
      qed
      ultimately show False using wf by blast
    qed
    then obtain a' where a': "file_at (trace st) (archive_path dir s e) = Some a'" by auto
    then have inp: "archive_path dir s e \<in> set (saved st)"
      using file_at_written [of "trace st" "archive_path dir s e"] sv by simp
    have "distinct (saved st) \<longrightarrow> email a' = e"
    proof
      assume "distinct (saved st)"
      then have "file_at (trace st) (archive_path dir s e) = Some a"
        using file_at_distinct [OF _ wf] sv by simp
      with a' a show "email a' = e" by simp
    qed
    with g e i inp a' show "\<exists>g e. (s, g) \<in> set (targets gs ds) \<and> e \<in> set (group_emails g)
             \<and> id' e = i
             \<and> archive_path dir s e \<in> set (saved st)
             \<and> (\<exists>a. file_at (trace st) (archive_path dir s e) = Some a
                   \<and> (distinct (saved st) \<longrightarrow> email a = e))"
      by blast
  qed
  have total: "(\<forall>evs p. \<not> write_raises w evs p)
         \<and> (\<forall>evs i. trash_raises w evs i = None \<or> trash_raises w evs i = Some HttpError)
         \<longrightarrow> out = None"
  proof
    assume "(\<forall>evs p. \<not> write_raises w evs p)
         \<and> (\<forall>evs i. trash_raises w evs i = None \<or> trash_raises w evs i = Some HttpError)"
    then have "fst (execute_loop w dir gs ds \<lparr>trace = [], saved = [], trashed = []\<rparr>) = None"
      using execute_loop_no_raise by blast
    then show "out = None" using ex by (simp add: execute_actions_def)
  qed
  have complete: "out = None \<longrightarrow>
          trash_calls (trace st)
            = concat (map (\<lambda>(s, g). map id' (group_emails g)) (targets gs ds))
          \<and> saved st
            = concat (map (\<lambda>(s, g). map (archive_path dir s) (group_emails g)) (targets gs ds))
          \<and> (\<forall>ev \<in> set (trace st). \<not> uncaught_failure ev)"
  proof
    assume o: "out = None"
    from run_complete [OF rs o] run_no_uncaught [OF rs o] sv
    show "trash_calls (trace st)
            = concat (map (\<lambda>(s, g). map id' (group_emails g)) (targets gs ds))
          \<and> saved st
            = concat (map (\<lambda>(s, g). map (archive_path dir s) (group_emails g)) (targets gs ds))
          \<and> (\<forall>ev \<in> set (trace st). \<not> uncaught_failure ev)"
      by simp
  qed
  from tr ids inner final caught total complete show ?thesis by (intro conjI)
qed

theorem trash_failure_skipped_witness:
  "execute_actions ex_world ''saved_emails'' ex_groups ex_decisions = (None, ex_final)
   \<and> TrashCall ''a@x.com'' ''m1'' (Some HttpError) \<in> set (trace ex_final)
   \<and> trash_calls (trace ex_final) = [''m1'', ''m3'']
   \<and> trashed ex_final = [''m3'']
   \<and> saved ex_final = [''saved_emails/m1_a_x_com.json'', ''saved_emails/m3_a_x_com.json'']
   \<and> distinct (saved ex_final)
   \<and> file_at (trace ex_final) ''saved_emails/m1_a_x_com.json'' = Some (ex_archive (ex_emails ! 0))"
proof -
  note t = trash_failure_skipped [OF ex_run]
  have tg: "targets ex_groups ex_decisions = [(''a@x.com'', snd (ex_groups ! 0))]"
    by (simp add: ex_groups_def ex_decisions_def)
  have f: "TrashCall ''a@x.com'' ''m1'' (Some HttpError) \<in> set (trace ex_final)"
    by (simp add: ex_final_def ex_trace_def)
  from t have "trash_calls (trace ex_final) = [''m1'', ''m3'']"
    unfolding tg by (simp add: ex_groups_def ex_emails_def)
  moreover from t have "trashed ex_final = trash_ok (trace ex_final)" by simp
  then have "trashed ex_final = [''m3'']"
    by (simp add: ex_final_def ex_trace_def ex_pre_def)
  moreover from t have sv: "saved ex_final
      = [''saved_emails/m1_a_x_com.json'', ''saved_emails/m3_a_x_com.json'']"
    unfolding tg by (simp add: ex_run_defs)
  moreover have "distinct (saved ex_final)" unfolding sv by simp
  moreover have "file_at (trace ex_final) ''saved_emails/m1_a_x_com.json''
      = Some (ex_archive (ex_emails ! 0))"
    by (simp add: ex_final_def ex_trace_def ex_pre_def file_at_append)
  ultimately show ?thesis using ex_run f by simp
qed

text \<open>
  C5 as stated fails for a failure that is not an \<open>HttpError\<close>: when the trash call for
  \<open>m1\<close> times out, the exception leaves the execute step, and the trash endpoint is never
  called for \<open>m3\<close>, the remaining message of the same group.
\<close>

theorem trash_failure_counterexample:
  "trash_raises ex_world_timeout ex_pre ''m1'' = Some TransportError
   \<and> fst (execute_actions ex_world_timeout ''saved_emails'' ex_groups ex_decisions)
       = Some TransportError
   \<and> trace (snd (execute_actions ex_world_timeout ''saved_emails'' ex_groups ex_decisions))
       = ex_pre @ [TrashCall ''a@x.com'' ''m1'' (Some TransportError)]
   \<and> trash_calls (trace (snd (execute_actions ex_world_timeout ''saved_emails'' ex_groups
                                 ex_decisions))) = [''m1'']
   \<and> ex_emails ! 2 \<in> set (group_emails (snd (ex_groups ! 0)))
   \<and> id' (ex_emails ! 2) = ''m3''
   \<and> ''m3'' \<notin> set (trash_calls (trace (snd (execute_actions ex_world_timeout ''saved_emails''
                                               ex_groups ex_decisions))))"
proof -
  have r: "execute_actions ex_world_timeout ''saved_emails'' ex_groups ex_decisions
      = (Some TransportError,
         \<lparr>trace = ex_pre @ [TrashCall ''a@x.com'' ''m1'' (Some TransportError)],
          saved = [''saved_emails/m1_a_x_com.json'', ''saved_emails/m3_a_x_com.json''],
          trashed = []\<rparr>)"
    by (simp add: ex_world_timeout_def ex_run_defs)
  show ?thesis
    unfolding r by (simp add: ex_world_timeout_def ex_pre_def ex_groups_def ex_emails_def)
qed

lemma execute_loop_skip_entry:
  "execute_loop w dir gs (ds1 @ (s, Skip) # ds2) st = execute_loop w dir gs (ds1 @ ds2) st"
proof (induction ds1 arbitrary: st)
  case Nil
  show ?case by simp
next
  case (Cons sd ds1)
  obtain s' d where "sd = (s', d)" by (cases sd)
  then show ?case using Cons.IH by (simp split: option.splits prod.splits)
qed

lemma mk_group_member:
  "e \<in> set (group_emails (mk_group s es)) \<longleftrightarrow> e \<in> set es \<and> sender_key (sender e) = s"
  by (simp add: mk_group_def)

text \<open>
  C4. An entry that maps a sender to skip can be removed from the decisions without
  changing the run. And for a sender that the decisions do not map to delete, mapped to
  skip or absent alike, the log holds no archive write and no event at all on its behalf,
  no trash call carries the id of one of its messages, and no archive holds one of its
  emails (message ids distinct, groups built by the group stage).
\<close>

theorem skip_same_as_absent:
  assumes nd: "(s, Delete) \<notin> set ds"
    and ex: "execute_actions w dir gs ds = (out, st)"
    and gb: "group_by_sender es = Inr gs"
    and di: "distinct (map id' es)"
  shows "execute_actions w dir gs (ds1 @ (s, Skip) # ds2) = execute_actions w dir gs (ds1 @ ds2)
    \<and> saved_for s (trace st) = []
    \<and> (\<forall>ev \<in> set (trace st). event_sender ev \<noteq> s)
    \<and> (\<forall>g. map_of gs s = Some g \<longrightarrow>
          (\<forall>e \<in> set (group_emails g).
              id' e \<notin> set (trash_calls (trace st))
              \<and> (\<forall>p a. WriteFile p a \<in> set (trace st) \<longrightarrow> email a \<noteq> e)))"
proof -
  have same: "execute_actions w dir gs (ds1 @ (s, Skip) # ds2) = execute_actions w dir gs (ds1 @ ds2)"
    by (simp add: execute_actions_def execute_loop_skip_entry)
  have rs: "run_shape dir (targets gs ds) out (trace st)"
    using execute_actions_shape [OF ex] by simp
  have not_target: "\<And>g. (s, g) \<notin> set (targets gs ds)"
    using nd targets_member by blast
  have senders: "\<forall>ev \<in> set (trace st). event_sender ev \<noteq> s"
  proof
    fix ev assume "ev \<in> set (trace st)"
    from run_senders [OF rs this] show "event_sender ev \<noteq> s"
      using not_target by auto
  qed
  then have none: "saved_for s (trace st) = []" by (rule saved_for_none)
  have untouched: "\<forall>g. map_of gs s = Some g \<longrightarrow>
          (\<forall>e \<in> set (group_emails g).
              id' e \<notin> set (trash_calls (trace st))
              \<and> (\<forall>p a. WriteFile p a \<in> set (trace st) \<longrightarrow> email a \<noteq> e))"
  proof (intro allI impI ballI conjI)
    fix g e assume g: "map_of gs s = Some g" and e: "e \<in> set (group_emails g)"
    have "g = mk_group s es" using g by (rule group_by_sender_group [OF gb])
    then have ge: "e \<in> set es \<and> sender_key (sender e) = s"
      using e by (simp add: mk_group_member)
    show "id' e \<notin> set (trash_calls (trace st))"
    proof
      assume "id' e \<in> set (trash_calls (trace st))"
      from run_trash_ids [OF rs this] obtain s' g' e' where
        t: "(s', g') \<in> set (targets gs ds)" and e': "e' \<in> set (group_emails g')"
        and i: "id' e' = id' e" by auto
      have "map_of gs s' = Some g'" using targets_member [OF t] by simp
      then have "g' = mk_group s' es" by (rule group_by_sender_group [OF gb])
      then have ge': "e' \<in> set es \<and> sender_key (sender e') = s'"
        using e' by (simp add: mk_group_member)
      have "e' = e" using di ge ge' i by (auto simp: distinct_map dest: inj_onD)
      with ge ge' have "s' = s" by simp
      with t not_target show False by simp
    qed
    fix p a assume "WriteFile p a \<in> set (trace st)"
    from run_write_emails [OF rs this] obtain s' g' where
      t: "(s', g') \<in> set (targets gs ds)" and m: "email a \<in> set (group_emails g')" by auto
    have "map_of gs s' = Some g'" using targets_member [OF t] by simp
    then have "g' = mk_group s' es" by (rule group_by_sender_group [OF gb])
    then have "sender_key (sender (email a)) = s'"
      using m by (simp add: mk_group_member)
    moreover have "s' \<noteq> s" using t not_target by auto
    ultimately show "email a \<noteq> e" using ge by auto
  qed
  show ?thesis using same none senders untouched by simp
qed

theorem skip_same_as_absent_witness:
  "(''b@y.com'', Delete) \<notin> set ex_decisions
   \<and> execute_actions ex_world ''saved_emails'' ex_groups ex_decisions = (None, ex_final)
   \<and> group_by_sender ex_emails = Inr ex_groups
   \<and> distinct (map id' ex_emails)
   \<and> execute_actions ex_world ''saved_emails'' ex_groups [(''a@x.com'', Delete), (''b@y.com'', Skip)]
       = execute_actions ex_world ''saved_emails'' ex_groups [(''a@x.com'', Delete)]
   \<and> saved_for ''b@y.com'' (trace ex_final) = []
   \<and> ''m2'' \<notin> set (trash_calls (trace ex_final))"
proof -
  have nd: "(''b@y.com'', Delete) \<notin> set ex_decisions" by (simp add: ex_decisions_def)
  have di: "distinct (map id' ex_emails)" by (simp add: ex_emails_def)
  note t = skip_same_as_absent [OF nd ex_run ex_grouping di, of "[(''a@x.com'', Delete)]" "[]"]
  have g: "map_of ex_groups ''b@y.com'' = Some (snd (ex_groups ! 1))"
    by (simp add: ex_groups_def)
  have e: "ex_emails ! 1 \<in> set (group_emails (snd (ex_groups ! 1)))" "id' (ex_emails ! 1) = ''m2''"
    by (simp_all add: ex_groups_def ex_emails_def)
  from t g e have "''m2'' \<notin> set (trash_calls (trace ex_final))" by metis
  with t nd di ex_run ex_grouping show ?thesis by simp
qed








end
